theory Spec2Isabelle
  imports Main "HOL-Library.Word" "HOL-Library.Sublist"
begin

section \<open>The display driver (epd42\_driver.py, class EPD42)\<close>

text \<open>
  The driver talks to the panel through three output lines (DC, CS, RST), one input line
  (BUSY) and the SPI bus. Everything it writes is recorded, in order, in a trace of events.
  Time is counted in milliseconds: \<open>time.time()\<close> reads the field \<open>clock\<close>, and
  \<open>time.sleep(x)\<close> advances it by \<open>1000 * x\<close>; the transport calls themselves take
  no time. The BUSY line is an input decided by the panel: \<open>busy_line s n\<close> is what the
  \<open>n\<close>-th read of the line returns, and \<open>polls\<close> counts the reads made so far.
\<close>

type_synonym byte = "8 word"

datatype event =
    SetDC bool
  | SetCS bool
  | SetRST bool
  | SpiWrite "byte list"

record epd42 =
  partial_count :: nat
  last_full_refresh :: int
  full_refresh_interval :: int
  clock :: int
  polls :: nat
  busy_line :: "nat \<Rightarrow> bool"
  trace :: "event list"

text \<open>\<open>EPD42.__init__\<close>: the counters of a new driver object, created at time \<open>now\<close>.\<close>

definition epd_new :: "int \<Rightarrow> (nat \<Rightarrow> bool) \<Rightarrow> epd42" where
  "epd_new now busy =
     \<lparr>partial_count = 0, last_full_refresh = now, full_refresh_interval = 300000,
      clock = now, polls = 0, busy_line = busy, trace = []\<rparr>"

definition emit :: "event list \<Rightarrow> epd42 \<Rightarrow> epd42" where
  "emit es s = s\<lparr>trace := trace s @ es\<rparr>"

definition time_sleep :: "int \<Rightarrow> epd42 \<Rightarrow> epd42" where
  "time_sleep ms s = s\<lparr>clock := clock s + ms\<rparr>"

text \<open>
  \<open>_wait_busy\<close>: \<open>start = time.time()\<close>, then the loop
  \<open>while busy == 1: if time.time() - start > timeout: return False; time.sleep(0.01)\<close>,
  and \<open>return True\<close> after it. The loop function returns the flag, the time and the
  number of reads at the return.
\<close>

function wait_busy_loop :: "(nat \<Rightarrow> bool) \<Rightarrow> int \<Rightarrow> int \<Rightarrow> int \<Rightarrow> nat \<Rightarrow> bool \<times> int \<times> nat" where
  "wait_busy_loop busy timeout start now n =
     (if busy n then
        (if now - start > timeout then (False, now, Suc n)
         else wait_busy_loop busy timeout start (now + 10) (Suc n))
      else (True, now, Suc n))"
  by pat_completeness auto
termination
  by (relation "measure (\<lambda>(busy, timeout, start, now, n). nat (start + timeout + 10 - now))") auto

declare wait_busy_loop.simps [simp del]

definition default_timeout :: int where
  "default_timeout = 30000"

definition wait_busy :: "int \<Rightarrow> epd42 \<Rightarrow> bool \<times> epd42" where
  "wait_busy timeout s =
     (case wait_busy_loop (busy_line s) timeout (clock s) (clock s) (polls s) of
        (ok, now, n) \<Rightarrow> (ok, s\<lparr>clock := now, polls := n\<rparr>))"

text \<open>Every caller in the driver drops the flag that \<open>_wait_busy\<close> returns.\<close>

definition wait_busy_ignored :: "epd42 \<Rightarrow> epd42" where
  "wait_busy_ignored s = snd (wait_busy default_timeout s)"

text \<open>A method body that is a sequence of statements: the steps run from left to right.\<close>

definition steps :: "('s \<Rightarrow> 's) list \<Rightarrow> 's \<Rightarrow> 's" where
  "steps fs s = fold (\<lambda>f. f) fs s"

definition send_command :: "byte \<Rightarrow> epd42 \<Rightarrow> epd42" where
  "send_command cmd =
     steps [emit [SetDC False], emit [SetCS False], emit [SpiWrite [cmd]],
            emit [SetCS True], emit [SetDC True]]"

definition send_data :: "byte \<Rightarrow> epd42 \<Rightarrow> epd42" where
  "send_data val =
     steps [emit [SetDC True], emit [SetCS False], emit [SpiWrite [val]], emit [SetCS True]]"

text \<open>\<open>for i in range(0, len(data), 4096): self.spi.writebytes(data[i:i + 4096])\<close>\<close>

function chunk_writes :: "byte list \<Rightarrow> event list" where
  "chunk_writes data =
     (if data = [] then [] else SpiWrite (take 4096 data) # chunk_writes (drop 4096 data))"
  by pat_completeness auto
termination
  by (relation "measure length") auto

declare chunk_writes.simps [simp del]

definition send_data_bulk :: "byte list \<Rightarrow> epd42 \<Rightarrow> epd42" where
  "send_data_bulk data =
     steps [emit [SetDC True], emit [SetCS False], emit (chunk_writes data), emit [SetCS True]]"

definition set_window :: "epd42 \<Rightarrow> epd42" where
  "set_window = steps
     [send_command 0x44, send_data 0x00, send_data 0x31,
      send_command 0x45, send_data 0x00, send_data 0x00, send_data 0x2B, send_data 0x01]"

definition set_cursor :: "epd42 \<Rightarrow> epd42" where
  "set_cursor = steps
     [send_command 0x4E, send_data 0x00,
      send_command 0x4F, send_data 0x00, send_data 0x00]"

definition reset :: "epd42 \<Rightarrow> epd42" where
  "reset = steps
     [emit [SetRST False], time_sleep 50,
      emit [SetRST True], time_sleep 50,
      wait_busy_ignored]"

definition init :: "epd42 \<Rightarrow> epd42" where
  "init = steps
     [reset,
      send_command 0x12, time_sleep 100, wait_busy_ignored,
      send_command 0x21, send_data 0x40, send_data 0x00,
      send_command 0x3C, send_data 0x05,
      send_command 0x11, send_data 0x03,
      set_window, set_cursor, wait_busy_ignored]"

definition stamp_full_refresh :: "epd42 \<Rightarrow> epd42" where
  "stamp_full_refresh s = s\<lparr>last_full_refresh := clock s\<rparr>"

definition clear_partial_count :: "epd42 \<Rightarrow> epd42" where
  "clear_partial_count s = s\<lparr>partial_count := 0\<rparr>"

definition init_partial :: "epd42 \<Rightarrow> epd42" where
  "init_partial = steps
     [init,
      send_command 0x3C, send_data 0x80,
      send_command 0x21, send_data 0x00, send_data 0x00,
      clear_partial_count, stamp_full_refresh]"

definition display :: "byte list \<Rightarrow> epd42 \<Rightarrow> epd42" where
  "display buffer = steps
     [send_command 0x24, send_data_bulk buffer,
      send_command 0x26, send_data_bulk buffer,
      send_command 0x22, send_data 0xF7, send_command 0x20,
      wait_busy_ignored,
      stamp_full_refresh, clear_partial_count]"

text \<open>The body of \<open>display_partial\<close> below its time check: the partial update itself.\<close>

definition partial_update :: "byte list \<Rightarrow> epd42 \<Rightarrow> epd42" where
  "partial_update buffer = steps
     [send_command 0x3C, send_data 0x80,
      send_command 0x21, send_data 0x00, send_data 0x00,
      set_window, set_cursor,
      send_command 0x24, send_data_bulk buffer,
      send_command 0x22, send_data 0xFF, send_command 0x20,
      wait_busy_ignored,
      set_cursor, send_command 0x26, send_data_bulk buffer]"

definition display_partial :: "byte list \<Rightarrow> epd42 \<Rightarrow> epd42" where
  "display_partial buffer s0 =
     (let s = s0\<lparr>partial_count := partial_count s0 + 1\<rparr> in
      if clock s - last_full_refresh s \<ge> full_refresh_interval s
      then steps [init, display buffer, init_partial] s
      else partial_update buffer s)"

definition full_refresh :: "byte list \<Rightarrow> epd42 \<Rightarrow> epd42" where
  "full_refresh buffer = steps [init, display buffer, init_partial]"

definition clear :: "byte \<Rightarrow> epd42 \<Rightarrow> epd42" where
  "clear color = display (replicate (400 div 8 * 300) color)"

definition sleep :: "epd42 \<Rightarrow> epd42" where
  "sleep = steps [send_command 0x10, send_data 0x01]"

text \<open>
  No method of \<open>EPD42\<close> has a \<open>raise\<close> statement, none tests the flag that
  \<open>_wait_busy\<close> returns, and the class keeps no record of the state the panel is in.
  A call of a public method is therefore the state change above and a normal return; the
  error type lists the failures that the specification names.
\<close>

datatype error = HardwareTimeout | InvalidDisplayState

datatype operation =
    Reset
  | Init
  | InitPartial
  | Display "byte list"
  | DisplayPartial "byte list"
  | FullRefresh "byte list"
  | Clear byte
  | Sleep

fun call :: "operation \<Rightarrow> epd42 \<Rightarrow> error + epd42" where
  "call Reset s = Inr (reset s)"
| "call Init s = Inr (init s)"
| "call InitPartial s = Inr (init_partial s)"
| "call (Display buffer) s = Inr (display buffer s)"
| "call (DisplayPartial buffer) s = Inr (display_partial buffer s)"
| "call (FullRefresh buffer) s = Inr (full_refresh buffer s)"
| "call (Clear color) s = Inr (clear color s)"
| "call Sleep s = Inr (sleep s)"

subsection \<open>Event sequences and scenarios used in the statements\<close>

text \<open>
  What the panel sees of a command byte, of a data byte and of a bulk transfer. These
  lists are written for the statements; the driver's functions above do not use them.
\<close>

definition command_events :: "byte \<Rightarrow> event list" where
  "command_events cmd = [SetDC False, SetCS False, SpiWrite [cmd], SetCS True, SetDC True]"

definition data_events :: "byte \<Rightarrow> event list" where
  "data_events val = [SetDC True, SetCS False, SpiWrite [val], SetCS True]"

definition bulk_events :: "byte list \<Rightarrow> event list" where
  "bulk_events data = [SetDC True, SetCS False] @ chunk_writes data @ [SetCS True]"

definition window_events :: "event list" where
  "window_events =
     command_events 0x44 @ data_events 0x00 @ data_events 0x31 @
     command_events 0x45 @ data_events 0x00 @ data_events 0x00 @ data_events 0x2B @ data_events 0x01"

definition cursor_events :: "event list" where
  "cursor_events =
     command_events 0x4E @ data_events 0x00 @
     command_events 0x4F @ data_events 0x00 @ data_events 0x00"

definition init_events :: "event list" where
  "init_events =
     [SetRST False, SetRST True] @ command_events 0x12 @
     command_events 0x21 @ data_events 0x40 @ data_events 0x00 @
     command_events 0x3C @ data_events 0x05 @
     command_events 0x11 @ data_events 0x03 @
     window_events @ cursor_events"

definition init_partial_events :: "event list" where
  "init_partial_events =
     init_events @ command_events 0x3C @ data_events 0x80 @
     command_events 0x21 @ data_events 0x00 @ data_events 0x00"

definition display_events :: "byte list \<Rightarrow> event list" where
  "display_events buffer =
     command_events 0x24 @ bulk_events buffer @
     command_events 0x26 @ bulk_events buffer @
     command_events 0x22 @ data_events 0xF7 @ command_events 0x20"

definition partial_update_events :: "byte list \<Rightarrow> event list" where
  "partial_update_events buffer =
     command_events 0x3C @ data_events 0x80 @
     command_events 0x21 @ data_events 0x00 @ data_events 0x00 @
     window_events @ cursor_events @
     command_events 0x24 @ bulk_events buffer @
     command_events 0x22 @ data_events 0xFF @ command_events 0x20 @
     cursor_events @ command_events 0x26 @ bulk_events buffer"

text \<open>The bytes that a sequence of events puts on the SPI bus.\<close>

fun spi_bytes :: "event list \<Rightarrow> byte list" where
  "spi_bytes [] = []"
| "spi_bytes (SpiWrite bs # es) = bs @ spi_bytes es"
| "spi_bytes (_ # es) = spi_bytes es"

text \<open>
  A client that calls \<open>display_partial\<close> again and again: before each call it lets
  some time pass. \<open>within_interval\<close> says that every one of these calls is made less
  than the refresh interval after the last full refresh.
\<close>

fun partial_calls :: "(int \<times> byte list) list \<Rightarrow> epd42 \<Rightarrow> epd42" where
  "partial_calls [] s = s"
| "partial_calls ((idle, buffer) # cs) s =
     partial_calls cs (display_partial buffer (time_sleep idle s))"

fun within_interval :: "(int \<times> byte list) list \<Rightarrow> epd42 \<Rightarrow> bool" where
  "within_interval [] s = True"
| "within_interval ((idle, buffer) # cs) s =
     (clock (time_sleep idle s) - last_full_refresh s < full_refresh_interval s \<and>
      within_interval cs (display_partial buffer (time_sleep idle s)))"


section \<open>The typewriter (typewriter.py, class EtyperApp)\<close>

subsection \<open>Word wrap with cursor tracking\<close>

text \<open>
  \<open>textwrap.wrap(para, width=cpl, break_long_words=True, break_on_hyphens=False)\<close>
  belongs to Python's library, not to this program: the functions below take it as the
  parameter \<open>wrap\<close>. Texts are lists of characters; positions, line numbers and columns
  are natural numbers; the cursor is a Python integer.
\<close>

type_synonym wrapper = "string \<Rightarrow> nat \<Rightarrow> string list"

type_synonym char_to_pos = "nat \<rightharpoonup> nat \<times> nat"

text \<open>\<open>text.split("\n")\<close>: the pieces between the newlines, at least one piece.\<close>

fun split_newline :: "string \<Rightarrow> string list" where
  "split_newline [] = [[]]"
| "split_newline (c # cs) =
     (if c = CHR 0x0A then [] # split_newline cs
      else (case split_newline cs of
              [] \<Rightarrow> [[c]]
            | p # ps \<Rightarrow> (c # p) # ps))"

text \<open>
  \<open>for col, ch in enumerate(w_line): char_to_pos[para_start + para_char] = (line_idx, col);
  para_char += 1\<close>, with \<open>pos\<close> for \<open>para_start + para_char\<close>.
\<close>

fun map_chars :: "nat \<Rightarrow> nat \<Rightarrow> nat \<Rightarrow> string \<Rightarrow> char_to_pos \<Rightarrow> char_to_pos" where
  "map_chars pos line_idx col [] ctp = ctp"
| "map_chars pos line_idx col (ch # w_line) ctp =
     map_chars (Suc pos) line_idx (Suc col) w_line (ctp(pos \<mapsto> (line_idx, col)))"

text \<open>
  The loop \<open>for w_line in wrapped\<close> of \<open>_wrap_with_cursor\<close>, on the state
  \<open>(lines, char_to_pos, line_idx, para_char)\<close>.
\<close>

fun wrap_lines ::
  "string \<Rightarrow> nat \<Rightarrow> string list \<Rightarrow> string list \<times> char_to_pos \<times> nat \<times> nat \<Rightarrow>
   string list \<times> char_to_pos \<times> nat \<times> nat" where
  "wrap_lines para para_start [] st = st"
| "wrap_lines para para_start (w_line # wrapped) (lines, ctp, line_idx, para_char) =
     (let ctp1 = map_chars (para_start + para_char) line_idx 0 w_line ctp;
          pc1 = para_char + length w_line;
          consumed = (pc1 < length para \<and> para ! pc1 = CHR '' '');
          ctp2 = (if consumed then ctp1(para_start + pc1 \<mapsto> (line_idx, length w_line)) else ctp1);
          pc2 = (if consumed then pc1 + 1 else pc1)
      in wrap_lines para para_start wrapped (lines @ [w_line], ctp2, line_idx + 1, pc2))"

text \<open>
  The loop \<open>for p_idx, para in enumerate(paragraphs)\<close>, on the state
  \<open>(lines, char_to_pos, line_idx, para_start)\<close>. The test \<open>p_idx < len(paragraphs) - 1\<close>
  says that paragraphs remain after this one.
\<close>

fun wrap_paragraphs ::
  "wrapper \<Rightarrow> nat \<Rightarrow> string list \<Rightarrow> string list \<times> char_to_pos \<times> nat \<times> nat \<Rightarrow>
   string list \<times> char_to_pos \<times> nat \<times> nat" where
  "wrap_paragraphs wrap cpl [] st = st"
| "wrap_paragraphs wrap cpl (para # paragraphs) (lines, ctp, line_idx, para_start) =
     (if para = [] then
        wrap_paragraphs wrap cpl paragraphs
          (lines @ [[]],
           (if paragraphs \<noteq> [] then ctp(para_start \<mapsto> (line_idx, 0)) else ctp),
           line_idx + 1, para_start + 1)
      else
        (let wrapped = (if wrap para cpl = [] then [[]] else wrap para cpl) in
         case wrap_lines para para_start wrapped (lines, ctp, line_idx, 0) of
           (lines1, ctp1, line_idx1, para_char) \<Rightarrow>
             wrap_paragraphs wrap cpl paragraphs
               (lines1,
                (if paragraphs \<noteq> []
                 then ctp1(para_start + length para \<mapsto> (line_idx1 - 1, length (last lines1)))
                 else ctp1),
                line_idx1, para_start + length para + 1)))"

definition wrap_with_cursor :: "wrapper \<Rightarrow> nat \<Rightarrow> string \<Rightarrow> int \<Rightarrow> string list \<times> nat \<times> nat" where
  "wrap_with_cursor wrap cpl doc cursor =
     (case wrap_paragraphs wrap cpl (split_newline doc) ([], Map.empty, 0, 0) of
        (lines0, ctp, line_idx, para_start) \<Rightarrow>
          (let lines = (if lines0 = [] then [[]] else lines0) in
           if cursor \<ge> int (length doc) then
             (if lines \<noteq> [] then (lines, length lines - 1, length (last lines))
              else (lines, 0, 0))
           else
             (case (if cursor < 0 then None else ctp (nat cursor)) of
                Some (cursor_line, cursor_col) \<Rightarrow> (lines, cursor_line, cursor_col)
              | None \<Rightarrow> (lines, length lines - 1, length (last lines)))))"

subsection \<open>From a visual position back to a text position\<close>

text \<open>
  The loop \<open>for w_line in wrapped\<close> of \<open>_pos_from_line_col\<close>, on the state
  \<open>(line_idx, para_char)\<close>: \<open>Inl\<close> is the value of its \<open>return\<close>, \<open>Inr\<close> the state
  when the loop ends without one.
\<close>

fun pos_lines ::
  "string \<Rightarrow> nat \<Rightarrow> nat \<Rightarrow> nat \<Rightarrow> string list \<Rightarrow> nat \<times> nat \<Rightarrow> nat + nat \<times> nat" where
  "pos_lines para text_pos target_line target_col [] st = Inr st"
| "pos_lines para text_pos target_line target_col (w_line # wrapped) (line_idx, para_char) =
     (if line_idx = target_line
      then Inl (text_pos + para_char + min target_col (length w_line))
      else
        (let pc1 = para_char + length w_line;
             pc2 = (if pc1 < length para \<and> para ! pc1 = CHR '' '' then pc1 + 1 else pc1)
         in pos_lines para text_pos target_line target_col wrapped (line_idx + 1, pc2)))"

text \<open>
  The loop \<open>for para in text.split("\n")\<close>, on the state \<open>(line_idx, text_pos)\<close>:
  \<open>Some\<close> is the value of a \<open>return\<close> inside the loop.
\<close>

fun pos_paragraphs ::
  "wrapper \<Rightarrow> nat \<Rightarrow> nat \<Rightarrow> nat \<Rightarrow> string list \<Rightarrow> nat \<times> nat \<Rightarrow> nat option" where
  "pos_paragraphs wrap cpl target_line target_col [] st = None"
| "pos_paragraphs wrap cpl target_line target_col (para # paragraphs) (line_idx, text_pos) =
     (if para = [] then
        (if line_idx = target_line then Some (text_pos + min target_col 0)
         else pos_paragraphs wrap cpl target_line target_col paragraphs (line_idx + 1, text_pos + 1))
      else
        (let wrapped = (if wrap para cpl = [] then [[]] else wrap para cpl) in
         case pos_lines para text_pos target_line target_col wrapped (line_idx, 0) of
           Inl pos \<Rightarrow> Some pos
         | Inr (line_idx1, para_char) \<Rightarrow>
             pos_paragraphs wrap cpl target_line target_col paragraphs
               (line_idx1, text_pos + length para + 1)))"

definition pos_from_line_col :: "wrapper \<Rightarrow> nat \<Rightarrow> string \<Rightarrow> string list \<Rightarrow> nat \<Rightarrow> nat \<Rightarrow> nat" where
  "pos_from_line_col wrap cpl doc lines target_line target_col =
     (case pos_paragraphs wrap cpl target_line target_col (split_newline doc) (0, 0) of
        Some pos \<Rightarrow> pos
      | None \<Rightarrow> length doc)"

subsection \<open>Keyboard input\<close>

text \<open>
  The key codes that \<open>_handle_key\<close> names (constants of the evdev library), and
  \<open>KEY_OTHER\<close> for every other code. The key map gives a key its normal and its shifted
  text.
\<close>

datatype keycode =
    KEY_LEFTSHIFT | KEY_RIGHTSHIFT | KEY_LEFTCTRL | KEY_RIGHTCTRL
  | KEY_Q | KEY_S | KEY_N | KEY_R | KEY_F | KEY_K
  | KEY_LEFT | KEY_RIGHT | KEY_UP | KEY_DOWN | KEY_HOME | KEY_END
  | KEY_ENTER | KEY_BACKSPACE | KEY_DELETE
  | KEY_OTHER nat

record editor =
  doc_text :: string
  cursor :: int
  dirty :: bool
  needs_display_update :: bool
  shift_held :: bool
  ctrl_held :: bool
  keymap :: "keycode \<rightharpoonup> string \<times> string"
  chars_per_line :: nat

text \<open>Python's slices \<open>s[:i]\<close> and \<open>s[i:]\<close>; a negative index counts from the end.\<close>

definition slice_to :: "'a list \<Rightarrow> int \<Rightarrow> 'a list" where
  "slice_to s i = (if 0 \<le> i then take (nat i) s else take (length s - nat (- i)) s)"

definition slice_from :: "'a list \<Rightarrow> int \<Rightarrow> 'a list" where
  "slice_from s i = (if 0 \<le> i then drop (nat i) s else drop (length s - nat (- i)) s)"

definition cursor_up :: "wrapper \<Rightarrow> editor \<Rightarrow> editor" where
  "cursor_up wrap e =
     (case wrap_with_cursor wrap (chars_per_line e) (doc_text e) (cursor e) of
        (lines, cur_line, cur_col) \<Rightarrow>
          if cur_line = 0 then e
          else
            (let target_line = cur_line - 1;
                 target_col = min cur_col (length (lines ! target_line))
             in e\<lparr>cursor := int (pos_from_line_col wrap (chars_per_line e) (doc_text e)
                                   lines target_line target_col)\<rparr>))"

definition cursor_down :: "wrapper \<Rightarrow> editor \<Rightarrow> editor" where
  "cursor_down wrap e =
     (case wrap_with_cursor wrap (chars_per_line e) (doc_text e) (cursor e) of
        (lines, cur_line, cur_col) \<Rightarrow>
          if int cur_line \<ge> int (length lines) - 1 then e
          else
            (let target_line = cur_line + 1;
                 target_col = min cur_col (length (lines ! target_line))
             in e\<lparr>cursor := int (pos_from_line_col wrap (chars_per_line e) (doc_text e)
                                   lines target_line target_col)\<rparr>))"

text \<open>
  The routines that the Ctrl shortcuts of \<open>_handle_key\<close> call. They belong to other parts
  of the program; \<open>handle_key\<close> returns the name of the routine it calls, with the editor
  as it is at the call.
\<close>

datatype shortcut =
    SleepMode | SaveDocument | NewDocument | ForceFullRefresh
  | SwitchDocument int | FileServerMode | LayoutPicker

definition handle_key :: "wrapper \<Rightarrow> keycode \<Rightarrow> int \<Rightarrow> editor \<Rightarrow> shortcut option \<times> editor" where
  "handle_key wrap keycode val e =
     (if keycode = KEY_LEFTSHIFT \<or> keycode = KEY_RIGHTSHIFT then (None, e\<lparr>shift_held := (val \<noteq> 0)\<rparr>)
      else if keycode = KEY_LEFTCTRL \<or> keycode = KEY_RIGHTCTRL then (None, e\<lparr>ctrl_held := (val \<noteq> 0)\<rparr>)
      else if val = 0 then (None, e)
      else if ctrl_held e \<and> keycode = KEY_Q then (Some SleepMode, e)
      else if ctrl_held e \<and> keycode = KEY_S then (Some SaveDocument, e)
      else if ctrl_held e \<and> keycode = KEY_N then (Some NewDocument, e)
      else if ctrl_held e \<and> keycode = KEY_R then (Some ForceFullRefresh, e)
      else if ctrl_held e \<and> keycode = KEY_LEFT then (Some (SwitchDocument (- 1)), e)
      else if ctrl_held e \<and> keycode = KEY_RIGHT then (Some (SwitchDocument 1), e)
      else if ctrl_held e \<and> keycode = KEY_F then (Some FileServerMode, e)
      else if ctrl_held e \<and> keycode = KEY_K then (Some LayoutPicker, e)
      else if keycode = KEY_LEFT then
        (None, if cursor e > 0
               then e\<lparr>cursor := cursor e - 1, needs_display_update := True\<rparr> else e)
      else if keycode = KEY_RIGHT then
        (None, if cursor e < int (length (doc_text e))
               then e\<lparr>cursor := cursor e + 1, needs_display_update := True\<rparr> else e)
      else if keycode = KEY_UP then (None, (cursor_up wrap e)\<lparr>needs_display_update := True\<rparr>)
      else if keycode = KEY_DOWN then (None, (cursor_down wrap e)\<lparr>needs_display_update := True\<rparr>)
      else if keycode = KEY_HOME then
        (case wrap_with_cursor wrap (chars_per_line e) (doc_text e) (cursor e) of
           (lines, cur_line, cur_col) \<Rightarrow>
             (None, e\<lparr>cursor := int (pos_from_line_col wrap (chars_per_line e) (doc_text e)
                                       lines cur_line 0),
                      needs_display_update := True\<rparr>))
      else if keycode = KEY_END then
        (case wrap_with_cursor wrap (chars_per_line e) (doc_text e) (cursor e) of
           (lines, cur_line, cur_col) \<Rightarrow>
             (None, e\<lparr>cursor := int (pos_from_line_col wrap (chars_per_line e) (doc_text e)
                                       lines cur_line (length (lines ! cur_line))),
                      needs_display_update := True\<rparr>))
      else if keycode = KEY_ENTER then
        (None, e\<lparr>doc_text := slice_to (doc_text e) (cursor e) @ [CHR 0x0A] @
                               slice_from (doc_text e) (cursor e),
                 cursor := cursor e + 1, dirty := True, needs_display_update := True\<rparr>)
      else if keycode = KEY_BACKSPACE then
        (None, if cursor e > 0
               then e\<lparr>doc_text := slice_to (doc_text e) (cursor e - 1) @
                                     slice_from (doc_text e) (cursor e),
                       cursor := cursor e - 1, dirty := True, needs_display_update := True\<rparr>
               else e)
      else if keycode = KEY_DELETE then
        (None, if cursor e < int (length (doc_text e))
               then e\<lparr>doc_text := slice_to (doc_text e) (cursor e) @
                                     slice_from (doc_text e) (cursor e + 1),
                       dirty := True, needs_display_update := True\<rparr>
               else e)
      else
        (case keymap e keycode of
           Some (normal, shifted) \<Rightarrow>
             (let char = (if shift_held e then shifted else normal) in
              (None, e\<lparr>doc_text := slice_to (doc_text e) (cursor e) @ char @
                                      slice_from (doc_text e) (cursor e),
                        cursor := cursor e + int (length char),
                        dirty := True, needs_display_update := True\<rparr>))
         | None \<Rightarrow> (None, e)))"

text \<open>The invariant of the editor: the cursor is a character index of the text, or its end.\<close>

definition cursor_in_text :: "editor \<Rightarrow> bool" where
  "cursor_in_text e = (0 \<le> cursor e \<and> cursor e \<le> int (length (doc_text e)))"

text \<open>
  Two wrappers for the examples. \<open>expandtabs\<close> is Python's \<open>str.expandtabs(8)\<close> on a text
  without newlines, from the given column: \<open>textwrap.wrap\<close> expands tabs before it
  wraps. On a paragraph without leading or trailing blanks whose expansion fits in the
  width, \<open>textwrap.wrap\<close> returns that expansion as its single line, which is what
  \<open>wrap_short\<close> returns. \<open>wrap_hard\<close> cuts a paragraph into pieces of the width.
\<close>

fun expandtabs :: "nat \<Rightarrow> string \<Rightarrow> string" where
  "expandtabs col [] = []"
| "expandtabs col (c # cs) =
     (if c = CHR 0x09 then replicate (8 - col mod 8) (CHR '' '') @ expandtabs (col + (8 - col mod 8)) cs
      else c # expandtabs (col + 1) cs)"

definition wrap_short :: wrapper where
  "wrap_short para cpl = (if para = [] then [] else [expandtabs 0 para])"

function wrap_hard :: wrapper where
  "wrap_hard para cpl =
     (if para = [] \<or> cpl = 0 then [] else take cpl para # wrap_hard (drop cpl para) cpl)"
  by pat_completeness auto
termination
  by (relation "measure (\<lambda>(para, cpl). length para)") auto

declare wrap_hard.simps [simp del]

definition tab_document :: editor where
  "tab_document =
     \<lparr>doc_text = [CHR ''a'', CHR 0x09, CHR ''b''], cursor = 3, dirty = False,
      needs_display_update = False, shift_held = False, ctrl_held = False,
      keymap = Map.empty, chars_per_line = 30\<rparr>"

subsection \<open>The Bluetooth network session\<close>

text \<open>
  \<open>_start_bt_pan\<close> and \<open>_stop_bt_pan\<close> act on the system through D-Bus calls and
  subprocesses. Each such call is an \<open>ext_call\<close>; the calls made are logged in order.
  The environment decides which calls raise an exception (by the position of the call in
  the log and the call itself), the exit status of \<open>ip link add\<close>, the devices that
  \<open>bluetoothctl devices Connected\<close> lists, and whether the D-Bus modules and the two web
  servers are available. A call that returns has had its effect on the system.
\<close>

datatype ext_call =
    MainloopSetup | SystemBus | GetAdapterProps | SetPowered
  | AgentCreate | GetAgentManager | UnregisterAgent | RegisterAgent | RequestDefaultAgent
  | SetAlias | SetDiscoverable bool | SetDiscoverableTimeout | SetPairable bool | SetPairableTimeout
  | IpLinkDel | IpLinkAdd | IpAddrAdd | IpLinkUp | SysctlForward
  | GetNetworkServer | NapUnregister | NapRegister
  | DnsmasqPopen | MainLoopNew | LoopThreadStart
  | DnsmasqTerminate | DnsmasqWait | DnsmasqKill | LoopQuit
  | BtDevicesConnected | BtDisconnect string | BtPowerOff

datatype exn = Failed ext_call | KeyError string

text \<open>How a block of statements ends: it falls through, it returns \<open>None\<close>, or it raises.\<close>

datatype flow = Next | Return_None | Raise exn

record env =
  raises :: "nat \<Rightarrow> ext_call \<Rightarrow> bool"
  ip_link_add_returncode :: int
  connected_devices :: "string list"
  has_dbus :: bool
  https_starts :: bool

text \<open>
  The first three fields are attributes of the application object (\<open>_dbus_mainloop_set\<close>,
  \<open>_bt_bus is not None\<close>, \<open>_bt_agent is not None\<close>); the others are the state of the
  system and the log.
\<close>

record bt_world =
  dbus_mainloop_set :: bool
  bt_bus :: bool
  bt_agent :: bool
  powered :: bool
  agent_registered :: bool
  discoverable :: bool
  pairable :: bool
  bridge :: bool
  nap_registered :: bool
  dnsmasq_running :: bool
  loop_running :: bool
  calls :: "ext_call list"

fun effect :: "env \<Rightarrow> ext_call \<Rightarrow> bt_world \<Rightarrow> bt_world" where
  "effect env SetPowered w = w\<lparr>powered := True\<rparr>"
| "effect env UnregisterAgent w = w\<lparr>agent_registered := False\<rparr>"
| "effect env RegisterAgent w = w\<lparr>agent_registered := True\<rparr>"
| "effect env (SetDiscoverable b) w = w\<lparr>discoverable := b\<rparr>"
| "effect env (SetPairable b) w = w\<lparr>pairable := b\<rparr>"
| "effect env IpLinkDel w = w\<lparr>bridge := False\<rparr>"
| "effect env IpLinkAdd w = (if ip_link_add_returncode env = 0 then w\<lparr>bridge := True\<rparr> else w)"
| "effect env NapUnregister w = w\<lparr>nap_registered := False\<rparr>"
| "effect env NapRegister w = w\<lparr>nap_registered := True\<rparr>"
| "effect env DnsmasqPopen w = w\<lparr>dnsmasq_running := True\<rparr>"
| "effect env DnsmasqTerminate w = w\<lparr>dnsmasq_running := False\<rparr>"
| "effect env DnsmasqKill w = w\<lparr>dnsmasq_running := False\<rparr>"
| "effect env LoopThreadStart w = w\<lparr>loop_running := True\<rparr>"
| "effect env LoopQuit w = w\<lparr>loop_running := False\<rparr>"
| "effect env BtPowerOff w = w\<lparr>powered := False\<rparr>"
| "effect env _ w = w"

definition ext :: "env \<Rightarrow> ext_call \<Rightarrow> bt_world \<Rightarrow> flow \<times> bt_world" where
  "ext env c w =
     (if raises env (length (calls w)) c
      then (Raise (Failed c), w\<lparr>calls := calls w @ [c]\<rparr>)
      else (Next, effect env c (w\<lparr>calls := calls w @ [c]\<rparr>)))"

text \<open>Statements in sequence: the first one that returns or raises ends the block.\<close>

fun run_steps :: "('w \<Rightarrow> flow \<times> 'w) list \<Rightarrow> 'w \<Rightarrow> flow \<times> 'w" where
  "run_steps [] w = (Next, w)"
| "run_steps (f # fs) w =
     (case f w of
        (Next, w1) \<Rightarrow> run_steps fs w1
      | (Return_None, w1) \<Rightarrow> (Return_None, w1)
      | (Raise e, w1) \<Rightarrow> (Raise e, w1))"

text \<open>\<open>try: ... except Exception: pass\<close> (or a handler that only prints).\<close>

definition attempt :: "('w \<Rightarrow> flow \<times> 'w) \<Rightarrow> 'w \<Rightarrow> flow \<times> 'w" where
  "attempt f w =
     (case f w of
        (Raise e, w1) \<Rightarrow> (Next, w1)
      | r \<Rightarrow> r)"

definition bt_power_off :: "env \<Rightarrow> bt_world \<Rightarrow> flow \<times> bt_world" where
  "bt_power_off env = attempt (ext env BtPowerOff)"

definition bt_disconnect_all :: "env \<Rightarrow> bt_world \<Rightarrow> flow \<times> bt_world" where
  "bt_disconnect_all env =
     attempt (run_steps (ext env BtDevicesConnected #
                         map (\<lambda>mac. ext env (BtDisconnect mac)) (connected_devices env)))"

text \<open>The body of the \<open>try\<close> of \<open>_start_bt_pan\<close>, up to the start of the DHCP helper.\<close>

definition start_network :: "env \<Rightarrow> bt_world \<Rightarrow> flow \<times> bt_world" where
  "start_network env = run_steps
     [(\<lambda>w. if dbus_mainloop_set w then (Next, w)
            else run_steps [ext env MainloopSetup, (\<lambda>w. (Next, w\<lparr>dbus_mainloop_set := True\<rparr>))] w),
      (\<lambda>w. if bt_bus w then (Next, w)
            else run_steps [ext env SystemBus, (\<lambda>w. (Next, w\<lparr>bt_bus := True\<rparr>))] w),
      ext env GetAdapterProps,
      ext env SetPowered,
      (\<lambda>w. if bt_agent w then (Next, w)
            else run_steps [ext env AgentCreate, (\<lambda>w. (Next, w\<lparr>bt_agent := True\<rparr>))] w),
      ext env GetAgentManager,
      attempt (ext env UnregisterAgent),
      ext env RegisterAgent,
      ext env RequestDefaultAgent,
      ext env SetAlias,
      ext env (SetDiscoverable True),
      ext env SetDiscoverableTimeout,
      ext env (SetPairable True),
      ext env SetPairableTimeout,
      ext env IpLinkDel,
      ext env IpLinkAdd,
      (\<lambda>w. if ip_link_add_returncode env \<noteq> 0
            then run_steps [ext env UnregisterAgent, (\<lambda>w. (Return_None, w))] w
            else (Next, w)),
      ext env IpAddrAdd,
      ext env IpLinkUp,
      ext env SysctlForward,
      ext env GetNetworkServer,
      attempt (ext env NapUnregister),
      ext env NapRegister]"

text \<open>
  The \<open>except Exception\<close> handler of \<open>_start_bt_pan\<close>. \<open>dnsmasq.terminate()\<close> is a call
  only when the local variable \<open>dnsmasq\<close> is bound; otherwise the name error is caught
  at once. The removal of the bridge is not inside a \<open>try\<close>.
\<close>

definition start_cleanup :: "env \<Rightarrow> bool \<Rightarrow> bt_world \<Rightarrow> flow \<times> bt_world" where
  "start_cleanup env dnsmasq_bound = run_steps
     [(\<lambda>w. if dnsmasq_bound then attempt (ext env DnsmasqTerminate) w else (Next, w)),
      ext env IpLinkDel,
      bt_power_off env,
      (\<lambda>w. (Return_None, w))]"

text \<open>
  The dictionary that \<open>_start_bt_pan\<close> returns, and the three ways the function can end:
  it returns the dictionary, it returns \<open>None\<close>, or an exception leaves it.
\<close>

datatype handle = HBus | HAgent | HMgr | HProps | HNetServer | HDnsmasq | HLoop

type_synonym pan_state = "string \<rightharpoonup> handle"

definition full_state :: pan_state where
  "full_state =
     [''bus'' \<mapsto> HBus, ''agent'' \<mapsto> HAgent, ''mgr'' \<mapsto> HMgr, ''props'' \<mapsto> HProps,
      ''net_server'' \<mapsto> HNetServer, ''dnsmasq'' \<mapsto> HDnsmasq, ''loop'' \<mapsto> HLoop]"

datatype start_result = Started pan_state | Not_started | Escaped exn

definition start_bt_pan :: "env \<Rightarrow> bt_world \<Rightarrow> start_result \<times> bt_world" where
  "start_bt_pan env w =
     (let finish = (\<lambda>r. case r of
                          (Raise e, w') \<Rightarrow> (Escaped e, w')
                        | (_, w') \<Rightarrow> (Not_started, w'))
      in case start_network env w of
           (Return_None, w1) \<Rightarrow> (Not_started, w1)
         | (Raise e, w1) \<Rightarrow> finish (start_cleanup env False w1)
         | (Next, w1) \<Rightarrow>
             (case ext env DnsmasqPopen w1 of
                (Next, w2) \<Rightarrow>
                  (case run_steps [ext env MainLoopNew, ext env LoopThreadStart] w2 of
                     (Next, w3) \<Rightarrow> (Started full_state, w3)
                   | (_, w3) \<Rightarrow> finish (start_cleanup env True w3))
              | (_, w2) \<Rightarrow> finish (start_cleanup env False w2)))"

text \<open>\<open>state[key].method(...)\<close>: a missing key raises \<open>KeyError\<close> before any call is made.\<close>

definition with_key :: "pan_state \<Rightarrow> string \<Rightarrow> (bt_world \<Rightarrow> flow \<times> bt_world) \<Rightarrow> bt_world \<Rightarrow> flow \<times> bt_world" where
  "with_key state key f w =
     (case state key of
        None \<Rightarrow> (Raise (KeyError key), w)
      | Some h \<Rightarrow> f w)"

text \<open>The eight numbered steps of \<open>_stop_bt_pan\<close>. The function does not assign to \<open>state\<close>.\<close>

definition stop_dhcp :: "env \<Rightarrow> pan_state \<Rightarrow> bt_world \<Rightarrow> flow \<times> bt_world" where
  "stop_dhcp env state w =
     (case run_steps [with_key state ''dnsmasq'' (ext env DnsmasqTerminate),
                      with_key state ''dnsmasq'' (ext env DnsmasqWait)] w of
        (Raise e, w1) \<Rightarrow> attempt (with_key state ''dnsmasq'' (ext env DnsmasqKill)) w1
      | r \<Rightarrow> r)"

definition stop_bt_pan :: "env \<Rightarrow> pan_state \<Rightarrow> bt_world \<Rightarrow> flow \<times> bt_world" where
  "stop_bt_pan env state = run_steps
     [stop_dhcp env state,
      attempt (with_key state ''loop'' (ext env LoopQuit)),
      attempt (with_key state ''net_server'' (ext env NapUnregister)),
      attempt (run_steps [with_key state ''props'' (ext env (SetDiscoverable False)),
                          with_key state ''props'' (ext env (SetPairable False))]),
      attempt (with_key state ''mgr'' (ext env UnregisterAgent)),
      bt_disconnect_all env,
      ext env IpLinkDel,
      bt_power_off env]"

subsection \<open>The modes beside typing\<close>

text \<open>
  The application owns the display driver, the Bluetooth session and the editor. What
  the Python imaging library draws is a parameter: \<open>render\<close> gives the buffer of the
  document screen for an editor state, \<open>instructions\<close> is the buffer of the file-server
  screen and \<open>picker_img\<close> gives the buffer of the layout picker for a selection.
\<close>

record app =
  epd :: epd42
  bt :: bt_world
  ed :: editor

definition save_document :: "app \<Rightarrow> app" where
  "save_document a = a\<lparr>ed := (ed a)\<lparr>dirty := False\<rparr>\<rparr>"

definition resume_typewriter_display :: "(editor \<Rightarrow> byte list) \<Rightarrow> app \<Rightarrow> app" where
  "resume_typewriter_display render a =
     a\<lparr>epd := steps [time_sleep 1000, init, display (render (ed a)), init_partial] (epd a),
       ed := (ed a)\<lparr>needs_display_update := False\<rparr>\<rparr>"

text \<open>
  \<open>_file_server_mode\<close>. The wait for Ctrl+F (of the given length) returns normally on
  the key, on the timeout and when the stop flag is set, so the three exits are one path
  here. The \<open>finally\<close>
  block shuts the servers down (each in its own \<open>try\<close>) and calls \<open>_stop_bt_pan\<close>; the
  \<open>return\<close> in the \<open>try\<close> block, taken when the HTTPS server did not start, leaves the
  function after the \<open>finally\<close> block.
\<close>

definition file_server_mode ::
  "env \<Rightarrow> (editor \<Rightarrow> byte list) \<Rightarrow> byte list \<Rightarrow> int \<Rightarrow> app \<Rightarrow> flow \<times> app" where
  "file_server_mode env render instructions waited a0 =
     (if \<not> has_dbus env then (Next, a0)
      else
        (let a1 = save_document a0;
             a2 = a1\<lparr>epd := steps [init, display instructions] (epd a1)\<rparr>
         in case start_bt_pan env (bt a2) of
              (Escaped e, w) \<Rightarrow> (Raise e, a2\<lparr>bt := w\<rparr>)
            | (Not_started, w) \<Rightarrow> (Next, resume_typewriter_display render (a2\<lparr>bt := w\<rparr>))
            | (Started state, w) \<Rightarrow>
                (case stop_bt_pan env state w of
                   (Raise e, w') \<Rightarrow> (Raise e, a2\<lparr>bt := w'\<rparr>)
                 | (fl, w') \<Rightarrow>
                     if \<not> https_starts env then (Next, a2\<lparr>bt := w'\<rparr>)
                     else (Next, resume_typewriter_display render
                                   (a2\<lparr>bt := w', epd := time_sleep waited (epd a2)\<rparr>)))))"

text \<open>
  \<open>_sleep_mode\<close>: the goodbye screen, the wait for Ctrl+Q (of the given length), and the
  wake-up.
\<close>

definition sleep_mode :: "(editor \<Rightarrow> byte list) \<Rightarrow> int \<Rightarrow> app \<Rightarrow> app" where
  "sleep_mode render slept a =
     (let a1 = a\<lparr>epd := steps [init, clear 0xFF, sleep, time_sleep slept] (epd a)\<rparr> in
      a1\<lparr>epd := steps [init, display (render (ed a1)), init_partial] (epd a1),
         ed := (ed a1)\<lparr>needs_display_update := False\<rparr>\<rparr>)"

text \<open>
  \<open>_show_layout_picker\<close>. The key presses that its input loop reads are a list;
  each comes with the time that passed before it. The list ends where the stop flag
  ends the loop.
\<close>

datatype picker_key = PickUp | PickDown | PickEnter | PickCancel | PickOther

fun picker_loop ::
  "(nat \<Rightarrow> byte list) \<Rightarrow> (editor \<Rightarrow> byte list) \<Rightarrow> (keycode \<rightharpoonup> string \<times> string) list \<Rightarrow>
   (int \<times> picker_key) list \<Rightarrow> nat \<Rightarrow> app \<Rightarrow> app" where
  "picker_loop picker_img render layouts [] selected a0 = a0"
| "picker_loop picker_img render layouts ((idle, k) # ks) selected a0 =
     (let a = a0\<lparr>epd := time_sleep idle (epd a0)\<rparr> in
      case k of
        PickUp \<Rightarrow>
          (let sel = nat ((int selected - 1) mod int (length layouts)) in
           picker_loop picker_img render layouts ks sel
             (a\<lparr>epd := display_partial (picker_img sel) (epd a)\<rparr>))
      | PickDown \<Rightarrow>
          (let sel = (selected + 1) mod length layouts in
           picker_loop picker_img render layouts ks sel
             (a\<lparr>epd := display_partial (picker_img sel) (epd a)\<rparr>))
      | PickEnter \<Rightarrow>
          resume_typewriter_display render (a\<lparr>ed := (ed a)\<lparr>keymap := layouts ! selected\<rparr>\<rparr>)
      | PickCancel \<Rightarrow> resume_typewriter_display render a
      | PickOther \<Rightarrow> picker_loop picker_img render layouts ks selected a)"

definition show_layout_picker ::
  "(nat \<Rightarrow> byte list) \<Rightarrow> (editor \<Rightarrow> byte list) \<Rightarrow> (keycode \<rightharpoonup> string \<times> string) list \<Rightarrow>
   nat \<Rightarrow> (int \<times> picker_key) list \<Rightarrow> app \<Rightarrow> app" where
  "show_layout_picker picker_img render layouts selected keys a =
     (if layouts = [] then a
      else picker_loop picker_img render layouts keys selected
             (a\<lparr>epd := steps [init, display (picker_img selected), init_partial] (epd a)\<rparr>))"

text \<open>
  The display shows the document and is ready for partial updates: the last things sent
  to the panel are those of \<open>init\<close>, of \<open>display\<close> with the rendered document and of
  \<open>init_partial\<close>, and the refresh counters are those that \<open>init_partial\<close> leaves.
\<close>

definition resynced :: "(editor \<Rightarrow> byte list) \<Rightarrow> app \<Rightarrow> bool" where
  "resynced render a =
     (suffix (init_events @ display_events (render (ed a)) @ init_partial_events) (trace (epd a)) \<and>
      partial_count (epd a) = 0 \<and>
      last_full_refresh (epd a) = clock (epd a))"

subsection \<open>Predicates used in the statements about the typewriter\<close>

text \<open>
  A position \<open>(line, column)\<close> lies in a list of lines; the state of the wrap loops is
  sound when the line counter is the number of lines and every recorded position lies in
  the lines.
\<close>

definition entry_ok :: "string list \<Rightarrow> nat \<times> nat \<Rightarrow> bool" where
  "entry_ok lines p = (fst p < length lines \<and> snd p \<le> length (lines ! fst p))"

definition layout_ok :: "string list \<Rightarrow> char_to_pos \<Rightarrow> nat \<Rightarrow> bool" where
  "layout_ok lines ctp line_idx =
     (line_idx = length lines \<and> (\<forall>k p. ctp k = Some p \<longrightarrow> entry_ok lines p))"

text \<open>
  The walk of \<open>_pos_from_line_col\<close> over the wrapped lines of a paragraph stays inside
  the paragraph: each line, placed at the walk's position, ends at or before the end of
  the paragraph. \<open>textwrap.wrap\<close> does this on a paragraph without tabs, whose wrapped
  lines are pieces of the paragraph.
\<close>

fun line_fits :: "string \<Rightarrow> string list \<Rightarrow> nat \<Rightarrow> bool" where
  "line_fits para [] para_char = True"
| "line_fits para (w_line # wrapped) para_char =
     (para_char + length w_line \<le> length para \<and>
      line_fits para wrapped
        (if para_char + length w_line < length para \<and> para ! (para_char + length w_line) = CHR '' ''
         then para_char + length w_line + 1 else para_char + length w_line))"

definition wrap_fits :: "wrapper \<Rightarrow> nat \<Rightarrow> bool" where
  "wrap_fits wrap cpl = (\<forall>para. line_fits para (wrap para cpl) 0)"

text \<open>The length of the paragraphs joined by single newlines.\<close>

definition joined_length :: "string list \<Rightarrow> nat" where
  "joined_length paragraphs = sum_list (map length paragraphs) + (length paragraphs - 1)"


text \<open>
  Every call of the client is made before the deadline, by the clock. The deadline of the
  statements is the time at which \<open>display\<close> returned plus the 300 seconds of the
  refresh interval.
\<close>

fun called_before :: "int \<Rightarrow> (int \<times> byte list) list \<Rightarrow> epd42 \<Rightarrow> bool" where
  "called_before deadline [] s = True"
| "called_before deadline ((idle, buffer) # cs) s =
     (clock (time_sleep idle s) < deadline \<and>
      called_before deadline cs (display_partial buffer (time_sleep idle s)))"

text \<open>What each operation sends to the panel, as the statements expect it.\<close>

fun operation_events :: "operation \<Rightarrow> epd42 \<Rightarrow> event list" where
  "operation_events Reset s = [SetRST False, SetRST True]"
| "operation_events Init s = init_events"
| "operation_events InitPartial s = init_partial_events"
| "operation_events (Display buffer) s = display_events buffer"
| "operation_events (DisplayPartial buffer) s =
     (if clock s - last_full_refresh s \<ge> full_refresh_interval s
      then init_events @ display_events buffer @ init_partial_events
      else partial_update_events buffer)"
| "operation_events (FullRefresh buffer) s =
     init_events @ display_events buffer @ init_partial_events"
| "operation_events (Clear color) s = display_events (replicate 15000 color)"
| "operation_events Sleep s = command_events 0x10 @ data_events 0x01"


text \<open>Concrete panels and buffers for the examples.\<close>

definition never_clears :: "nat \<Rightarrow> bool" where
  "never_clears n = True"

definition always_clear :: "nat \<Rightarrow> bool" where
  "always_clear n = False"


definition white_buffer :: "byte list" where
  "white_buffer = replicate 15000 0xFF"

definition two_partial_calls :: "(int \<times> byte list) list" where
  "two_partial_calls = [(1000, white_buffer), (200000, white_buffer)]"

text \<open>The reset pulse of \<open>reset\<close>, before its wait.\<close>

definition reset_pulse :: "epd42 \<Rightarrow> epd42" where
  "reset_pulse = steps [emit [SetRST False], time_sleep 50, emit [SetRST True], time_sleep 50]"



definition late_start :: epd42 where
  "late_start = time_sleep 400000 (epd_new 0 always_clear)"

definition asleep :: epd42 where
  "asleep = sleep (init_partial (epd_new 0 always_clear))"

text \<open>
  Environments and worlds for the examples: nothing fails; \<open>ip link add\<close> exits with
  status 1; the HTTPS server does not start; the removal of the bridge raises once the
  session is up (from the 24th call on). In the idle world nothing is set up.
\<close>

definition quiet :: "nat \<Rightarrow> ext_call \<Rightarrow> bool" where
  "quiet n c = False"

definition bridge_removal_fails :: "nat \<Rightarrow> ext_call \<Rightarrow> bool" where
  "bridge_removal_fails n c = (c = IpLinkDel \<and> n \<ge> 23)"

definition healthy_env :: env where
  "healthy_env = \<lparr>raises = quiet, ip_link_add_returncode = 0, connected_devices = [],
                  has_dbus = True, https_starts = True\<rparr>"

definition no_bridge_env :: env where
  "no_bridge_env = healthy_env\<lparr>ip_link_add_returncode := 1\<rparr>"

definition no_https_env :: env where
  "no_https_env = healthy_env\<lparr>https_starts := False\<rparr>"

definition stuck_bridge_env :: env where
  "stuck_bridge_env = healthy_env\<lparr>raises := bridge_removal_fails\<rparr>"

definition idle_world :: bt_world where
  "idle_world =
     \<lparr>dbus_mainloop_set = False, bt_bus = False, bt_agent = False, powered = False,
      agent_registered = False, discoverable = False, pairable = False, bridge = False,
      nap_registered = False, dnsmasq_running = False, loop_running = False, calls = []\<rparr>"

text \<open>The worlds after a session was started, and after it was torn down once.\<close>

definition started_world :: bt_world where
  "started_world = snd (start_bt_pan stuck_bridge_env idle_world)"

definition session_calls :: "ext_call list" where
  "session_calls =
     [MainloopSetup, SystemBus, GetAdapterProps, SetPowered, AgentCreate,
      GetAgentManager, UnregisterAgent, RegisterAgent, RequestDefaultAgent, SetAlias,
      SetDiscoverable True, SetDiscoverableTimeout, SetPairable True, SetPairableTimeout,
      IpLinkDel, IpLinkAdd, IpAddrAdd, IpLinkUp, SysctlForward,
      GetNetworkServer, NapUnregister, NapRegister, DnsmasqPopen,
      MainLoopNew, LoopThreadStart]"

definition running_world :: bt_world where
  "running_world = snd (start_bt_pan healthy_env idle_world)"

definition stopped_world :: bt_world where
  "stopped_world = snd (stop_bt_pan healthy_env full_state running_world)"

definition teardown_calls :: "ext_call list" where
  "teardown_calls =
     [DnsmasqTerminate, DnsmasqWait, LoopQuit, NapUnregister,
      SetDiscoverable False, SetPairable False, UnregisterAgent,
      BtDevicesConnected, IpLinkDel, BtPowerOff]"

text \<open>The application at its start, with the given editor state.\<close>

definition fresh_app :: "editor \<Rightarrow> app" where
  "fresh_app e = \<lparr>epd = epd_new 0 always_clear, bt = idle_world, ed = e\<rparr>"

text \<open>The renderer reads the document, not the update flag and not the key map.\<close>

definition renders_document :: "(editor \<Rightarrow> byte list) \<Rightarrow> bool" where
  "renders_document render =
     (\<forall>e b km. render (e\<lparr>needs_display_update := b\<rparr>) = render e \<and>
               render (e\<lparr>keymap := km\<rparr>) = render e)"

section \<open>Properties of the display driver\<close>

subsection \<open>Supporting lemmas\<close>

lemma steps_Nil [simp]: "steps [] s = s"
  by (simp add: steps_def)

lemma steps_Cons [simp]: "steps (f # fs) s = steps fs (f s)"
  by (simp add: steps_def)

lemma emit_fields [simp]:
  "trace (emit es s) = trace s @ es"
  "clock (emit es s) = clock s"
  "polls (emit es s) = polls s"
  "busy_line (emit es s) = busy_line s"
  "partial_count (emit es s) = partial_count s"
  "last_full_refresh (emit es s) = last_full_refresh s"
  "full_refresh_interval (emit es s) = full_refresh_interval s"
  by (simp_all add: emit_def)

lemma time_sleep_fields [simp]:
  "trace (time_sleep d s) = trace s"
  "clock (time_sleep d s) = clock s + d"
  "polls (time_sleep d s) = polls s"
  "busy_line (time_sleep d s) = busy_line s"
  "partial_count (time_sleep d s) = partial_count s"
  "last_full_refresh (time_sleep d s) = last_full_refresh s"
  "full_refresh_interval (time_sleep d s) = full_refresh_interval s"
  by (simp_all add: time_sleep_def)

lemma wait_busy_loop_spec:
  "wait_busy_loop busy timeout start now n = (ok, now', n') \<Longrightarrow>
     n < n' \<and> (\<forall>i. n \<le> i \<and> i < n' - 1 \<longrightarrow> busy i) \<and> ok = (\<not> busy (n' - 1)) \<and>
     (\<not> ok \<longrightarrow> now' - start > timeout) \<and> now' = now + 10 * int (n' - 1 - n) \<and>
     (now \<le> start + timeout + 10 \<longrightarrow> now' \<le> start + timeout + 10)"
proof (induction busy timeout start now n arbitrary: ok now' n' rule: wait_busy_loop.induct)
  case (1 busy timeout start now n)
  show ?case
  proof (cases "busy n \<and> \<not> now - start > timeout")
    case True
    then have rec: "wait_busy_loop busy timeout start (now + 10) (Suc n) = (ok, now', n')"
      using "1.prems" by (subst (asm) wait_busy_loop.simps) simp
    from True have bn: "busy n" and nt: "\<not> now - start > timeout" by auto
    note ih0 = "1.IH" [OF bn nt rec]
    have ih: "Suc n < n'" "\<forall>i. Suc n \<le> i \<and> i < n' - 1 \<longrightarrow> busy i" "ok = (\<not> busy (n' - 1))"
      "\<not> ok \<longrightarrow> now' - start > timeout" "now' = now + 10 + 10 * int (n' - 1 - Suc n)"
      "now + 10 \<le> start + timeout + 10 \<longrightarrow> now' \<le> start + timeout + 10"
      using ih0 by blast+
    have a: "\<forall>i. n \<le> i \<and> i < n' - 1 \<longrightarrow> busy i"
    proof (intro allI impI)
      fix i assume "n \<le> i \<and> i < n' - 1"
      then show "busy i" using ih(2) True by (cases "i = n") auto
    qed
    have b: "now' = now + 10 * int (n' - 1 - n)" using ih(1,5) by (simp add: of_nat_diff)
    have c: "now' \<le> start + timeout + 10" using ih(6) True by linarith
    have d: "n < n'" using ih(1) by simp
    show ?thesis using a b c d ih(3,4) by blast
  next
    case False
    then have "(ok, now', n') = (if busy n then (False, now, Suc n) else (True, now, Suc n))"
      using "1.prems" by (subst (asm) wait_busy_loop.simps) (auto split: if_splits)
    then show ?thesis using False by (auto split: if_splits)
  qed
qed


lemma wait_busy_ignored_fields [simp]:
  "trace (wait_busy_ignored s) = trace s"
  "busy_line (wait_busy_ignored s) = busy_line s"
  "partial_count (wait_busy_ignored s) = partial_count s"
  "last_full_refresh (wait_busy_ignored s) = last_full_refresh s"
  "full_refresh_interval (wait_busy_ignored s) = full_refresh_interval s"
  by (simp_all add: wait_busy_ignored_def wait_busy_def split: prod.splits)

lemma wait_busy_ignored_spec:
  shows "polls s < polls (wait_busy_ignored s)"
    and "\<forall>i. polls s \<le> i \<and> i < polls (wait_busy_ignored s) - 1 \<longrightarrow> busy_line s i"
    and "busy_line s (polls (wait_busy_ignored s) - 1) \<longrightarrow>
           clock (wait_busy_ignored s) - clock s > default_timeout"
    and "clock (wait_busy_ignored s) = clock s + 10 * int (polls (wait_busy_ignored s) - 1 - polls s)"
    and "clock (wait_busy_ignored s) \<le> clock s + default_timeout + 10"
proof -
  obtain ok now' n' where
    w: "wait_busy_loop (busy_line s) default_timeout (clock s) (clock s) (polls s) = (ok, now', n')"
    by (metis prod_cases3)
  have c: "clock (wait_busy_ignored s) = now'" and p: "polls (wait_busy_ignored s) = n'"
    using w by (simp_all add: wait_busy_ignored_def wait_busy_def)
  have le: "clock s \<le> clock s + default_timeout + 10"
    by (simp add: default_timeout_def)
  note sp = wait_busy_loop_spec [OF w]
  show "polls s < polls (wait_busy_ignored s)" unfolding p using sp by blast
  show "\<forall>i. polls s \<le> i \<and> i < polls (wait_busy_ignored s) - 1 \<longrightarrow> busy_line s i"
    unfolding p using sp by blast
  show "busy_line s (polls (wait_busy_ignored s) - 1) \<longrightarrow>
          clock (wait_busy_ignored s) - clock s > default_timeout"
    unfolding c p using sp by blast
  show "clock (wait_busy_ignored s) = clock s + 10 * int (polls (wait_busy_ignored s) - 1 - polls s)"
    unfolding c p using sp by blast
  show "clock (wait_busy_ignored s) \<le> clock s + default_timeout + 10"
    unfolding c using sp le by blast
qed

lemma stamp_fields [simp]:
  "trace (stamp_full_refresh s) = trace s"
  "clock (stamp_full_refresh s) = clock s"
  "polls (stamp_full_refresh s) = polls s"
  "busy_line (stamp_full_refresh s) = busy_line s"
  "partial_count (stamp_full_refresh s) = partial_count s"
  "last_full_refresh (stamp_full_refresh s) = clock s"
  "full_refresh_interval (stamp_full_refresh s) = full_refresh_interval s"
  by (simp_all add: stamp_full_refresh_def)

lemma clear_partial_count_fields [simp]:
  "trace (clear_partial_count s) = trace s"
  "clock (clear_partial_count s) = clock s"
  "polls (clear_partial_count s) = polls s"
  "busy_line (clear_partial_count s) = busy_line s"
  "partial_count (clear_partial_count s) = 0"
  "last_full_refresh (clear_partial_count s) = last_full_refresh s"
  "full_refresh_interval (clear_partial_count s) = full_refresh_interval s"
  by (simp_all add: clear_partial_count_def)

lemmas send_defs = send_command_def send_data_def send_data_bulk_def set_window_def set_cursor_def
  command_events_def data_events_def bulk_events_def

lemma trace_display:
  "trace (display buffer s) = trace s @ display_events buffer"
  by (simp add: display_def display_events_def send_defs)

lemma display_counters:
  "partial_count (display buffer s) = 0"
  "last_full_refresh (display buffer s) = clock (display buffer s)"
  "full_refresh_interval (display buffer s) = full_refresh_interval s"
  "busy_line (display buffer s) = busy_line s"
  by (simp_all add: display_def send_defs)

lemma display_wait:
  "clock (display buffer s) = clock (wait_busy_ignored s)"
  "polls (display buffer s) = polls (wait_busy_ignored s)"
  by (simp_all add: display_def send_defs wait_busy_ignored_def wait_busy_def emit_def split: prod.splits)

lemma spi_bytes_append [simp]: "spi_bytes (xs @ ys) = spi_bytes xs @ spi_bytes ys"
  by (induction xs rule: spi_bytes.induct) simp_all

lemma spi_bytes_chunk_writes: "spi_bytes (chunk_writes data) = data"
proof (induction data rule: chunk_writes.induct)
  case (1 data)
  show ?case
  proof (cases "data = []")
    case True
    then show ?thesis by (subst chunk_writes.simps) simp
  next
    case False
    then show ?thesis using 1 by (subst chunk_writes.simps) simp
  qed
qed

lemma chunk_writes_bounded:
  "e \<in> set (chunk_writes data) \<Longrightarrow> \<exists>bs. e = SpiWrite bs \<and> bs \<noteq> [] \<and> length bs \<le> 4096"
proof (induction data rule: chunk_writes.induct)
  case (1 data)
  show ?case
  proof (cases "data = []")
    case True
    then show ?thesis using "1.prems" by (subst (asm) chunk_writes.simps) simp
  next
    case False
    then have "e = SpiWrite (take 4096 data) \<or> e \<in> set (chunk_writes (drop 4096 data))"
      using "1.prems" by (subst (asm) chunk_writes.simps) simp
    then show ?thesis using 1(1) [OF False] False by auto
  qed
qed

lemma spi_bytes_bulk: "spi_bytes (bulk_events data) = data"
  by (simp add: bulk_events_def spi_bytes_chunk_writes)


lemma wait_busy_loop_always_busy:
  "(\<forall>i. busy i) \<Longrightarrow>
     \<exists>k. wait_busy_loop busy timeout start now n = (False, now + 10 * int k, Suc (n + k)) \<and>
         now + 10 * int k - start > timeout \<and>
         (0 < k \<longrightarrow> now + 10 * int k - 10 - start \<le> timeout)"
proof (induction busy timeout start now n rule: wait_busy_loop.induct)
  case (1 busy timeout start now n)
  then have bn: "busy n" by simp
  show ?case
  proof (cases "now - start > timeout")
    case True
    then have "wait_busy_loop busy timeout start now n = (False, now + 10 * int 0, Suc (n + 0))"
      using bn by (subst wait_busy_loop.simps) simp
    then show ?thesis using True by (intro exI [of _ 0]) simp
  next
    case False
    from "1.IH" [OF bn False "1.prems"] obtain k where
      k: "wait_busy_loop busy timeout start (now + 10) (Suc n) =
            (False, now + 10 + 10 * int k, Suc (Suc n + k))"
         "now + 10 + 10 * int k - start > timeout"
      by blast
    have low: "0 < k \<longrightarrow> now + 10 + 10 * int k - 10 - start \<le> timeout"
      using "1.IH" [OF bn False "1.prems"] k(1) by auto
    have "wait_busy_loop busy timeout start now n =
            (False, now + 10 * int (Suc k), Suc (n + Suc k))"
      using bn False k(1) by (subst wait_busy_loop.simps) simp
    moreover have "now + 10 * int (Suc k) - start > timeout" using k(2) by simp
    moreover have "now + 10 * int (Suc k) - 10 - start \<le> timeout"
      using low False by (cases "k = 0") auto
    ultimately show ?thesis by blast
  qed
qed

lemma wait_busy_never_clears:
  assumes "\<forall>i. busy_line s i"
  shows "fst (wait_busy default_timeout s) = False"
    and "clock (snd (wait_busy default_timeout s)) = clock s + default_timeout + 10"
proof -
  from wait_busy_loop_always_busy [OF assms, of default_timeout "clock s" "clock s" "polls s"]
  obtain k where
    k: "wait_busy_loop (busy_line s) default_timeout (clock s) (clock s) (polls s) =
          (False, clock s + 10 * int k, Suc (polls s + k))"
       "clock s + 10 * int k - clock s > default_timeout"
       "0 < k \<longrightarrow> clock s + 10 * int k - 10 - clock s \<le> default_timeout"
    by blast
  have "k = 3001" using k(2,3) by (auto simp: default_timeout_def)
  then show "fst (wait_busy default_timeout s) = False"
    and "clock (snd (wait_busy default_timeout s)) = clock s + default_timeout + 10"
    using k(1) by (simp_all add: wait_busy_def default_timeout_def)
qed

lemma reset_bounded: "clock (reset s) \<le> clock s + 100 + default_timeout + 10"
proof -
  have "reset s = wait_busy_ignored (reset_pulse s)"
    by (simp add: reset_def reset_pulse_def)
  moreover have "clock (reset_pulse s) = clock s + 100" by (simp add: reset_pulse_def)
  ultimately show ?thesis
    using wait_busy_ignored_spec(5) [of "reset_pulse s"] by simp
qed


lemma trace_init: "trace (init s) = trace s @ init_events"
  by (simp add: init_def reset_def init_events_def window_events_def cursor_events_def send_defs)

lemma trace_init_partial: "trace (init_partial s) = trace s @ init_partial_events"
  by (simp add: init_partial_def init_partial_events_def trace_init send_defs)

lemma trace_partial_update:
  "trace (partial_update buffer s) = trace s @ partial_update_events buffer"
  by (simp add: partial_update_def partial_update_events_def window_events_def cursor_events_def
      send_defs)

lemma partial_update_counters [simp]:
  "partial_count (partial_update buffer s) = partial_count s"
  "last_full_refresh (partial_update buffer s) = last_full_refresh s"
  "full_refresh_interval (partial_update buffer s) = full_refresh_interval s"
  "busy_line (partial_update buffer s) = busy_line s"
  by (simp_all add: partial_update_def send_defs)

lemma display_partial_normal:
  assumes "clock s - last_full_refresh s < full_refresh_interval s"
  shows "display_partial buffer s = partial_update buffer (s\<lparr>partial_count := partial_count s + 1\<rparr>)"
  using assms by (simp add: display_partial_def)

lemma partial_calls_normal:
  "within_interval cs s \<Longrightarrow>
     trace (partial_calls cs s) = trace s @ concat (map (\<lambda>(idle, buffer). partial_update_events buffer) cs) \<and>
     partial_count (partial_calls cs s) = partial_count s + length cs \<and>
     last_full_refresh (partial_calls cs s) = last_full_refresh s"
proof (induction cs arbitrary: s)
  case Nil
  then show ?case by simp
next
  case (Cons c cs)
  obtain idle buffer where c: "c = (idle, buffer)" by (cases c)
  let ?s = "time_sleep idle s"
  have el: "clock ?s - last_full_refresh ?s < full_refresh_interval ?s"
    and rest: "within_interval cs (display_partial buffer ?s)"
    using Cons.prems c by simp_all
  have step: "display_partial buffer ?s = partial_update buffer (?s\<lparr>partial_count := partial_count ?s + 1\<rparr>)"
    by (rule display_partial_normal [OF el])
  show ?case
    using Cons.IH [OF rest] c by (simp add: step trace_partial_update)
qed

lemma wait_busy_ignored_partial_count:
  "wait_busy_ignored (s\<lparr>partial_count := n\<rparr>) = (wait_busy_ignored s)\<lparr>partial_count := n\<rparr>"
  by (simp add: wait_busy_ignored_def wait_busy_def split: prod.splits)

lemma emit_partial_count: "emit es (s\<lparr>partial_count := n\<rparr>) = (emit es s)\<lparr>partial_count := n\<rparr>"
  by (simp add: emit_def)

lemma time_sleep_partial_count:
  "time_sleep d (s\<lparr>partial_count := n\<rparr>) = (time_sleep d s)\<lparr>partial_count := n\<rparr>"
  by (simp add: time_sleep_def)

lemma stamp_partial_count:
  "stamp_full_refresh (s\<lparr>partial_count := n\<rparr>) = (stamp_full_refresh s)\<lparr>partial_count := n\<rparr>"
  by (simp add: stamp_full_refresh_def)

lemma clear_partial_count_absorbs:
  "clear_partial_count (s\<lparr>partial_count := n\<rparr>) = clear_partial_count s"
  by (simp add: clear_partial_count_def)

lemmas partial_count_moves = wait_busy_ignored_partial_count emit_partial_count
  time_sleep_partial_count stamp_partial_count clear_partial_count_absorbs

lemma init_partial_count: "init (s\<lparr>partial_count := n\<rparr>) = (init s)\<lparr>partial_count := n\<rparr>"
  by (simp add: init_def reset_def send_defs partial_count_moves)

lemma display_partial_count: "display buffer (s\<lparr>partial_count := n\<rparr>) = display buffer s"
  by (simp add: display_def send_defs partial_count_moves)

lemma display_partial_redirect:
  assumes "clock s - last_full_refresh s \<ge> full_refresh_interval s"
  shows "display_partial buffer s = full_refresh buffer s"
  using assms by (simp add: display_partial_def full_refresh_def init_partial_count display_partial_count)

lemma trace_full_refresh:
  "trace (full_refresh buffer s) = trace s @ init_events @ display_events buffer @ init_partial_events"
  by (simp add: full_refresh_def trace_init trace_display trace_init_partial)

lemma no_reset_in_partial_update: "SetRST v \<notin> set (partial_update_events buffer)"
proof -
  have "SetRST v \<notin> set (chunk_writes buffer)" using chunk_writes_bounded by blast
  then show ?thesis
    by (simp add: partial_update_events_def window_events_def cursor_events_def
        command_events_def data_events_def bulk_events_def)
qed

lemma trace_sleep: "trace (sleep s) = trace s @ command_events 0x10 @ data_events 0x01"
  by (simp add: sleep_def send_defs)

lemma trace_reset: "trace (reset s) = trace s @ [SetRST False, SetRST True]"
  by (simp add: reset_def)

lemma trace_display_partial:
  "trace (display_partial buffer s) =
     trace s @ (if clock s - last_full_refresh s \<ge> full_refresh_interval s
                then init_events @ display_events buffer @ init_partial_events
                else partial_update_events buffer)"
  by (simp add: display_partial_def trace_init trace_display trace_init_partial trace_partial_update)

lemma call_total: "\<exists>s'. call operation s = Inr s' \<and> prefix (trace s) (trace s')"
  by (cases operation)
    (simp_all add: trace_reset trace_init trace_init_partial trace_display trace_display_partial
      trace_full_refresh trace_sleep clear_def)

lemma idle_wait:
  "\<not> busy_line s (polls s) \<Longrightarrow> clock (wait_busy_ignored s) = clock s"
  "\<not> busy_line s (polls s) \<Longrightarrow> polls (wait_busy_ignored s) = Suc (polls s)"
  by (simp_all add: wait_busy_ignored_def wait_busy_def wait_busy_loop.simps)

lemma partial_update_wait:
  "clock (partial_update buffer s) = clock (wait_busy_ignored s)"
  "polls (partial_update buffer s) = polls (wait_busy_ignored s)"
  by (simp_all add: partial_update_def send_defs wait_busy_ignored_def wait_busy_def emit_def
      split: prod.splits)

lemma idle_display:
  "busy_line s = always_clear \<Longrightarrow> clock (display buffer s) = clock s"
  by (simp add: display_wait idle_wait always_clear_def)

lemma idle_partial_update:
  "busy_line s = always_clear \<Longrightarrow> clock (partial_update buffer s) = clock s"
  by (simp add: partial_update_wait idle_wait always_clear_def)

subsection \<open>C2: reset on a busy line that never clears\<close>

text \<open>
  C2, as stated, fails on the code. With a busy line that never clears, the wait inside
  \<open>reset\<close> returns the flag \<open>False\<close>, but \<open>reset\<close> drops it and returns
  normally: its caller gets no \<open>HardwareTimeout\<close>.
\<close>

theorem reset_reports_no_timeout:
  "never_clears 0 \<and> never_clears 3001 \<and>
   call Reset (epd_new 0 never_clears) \<noteq> Inl HardwareTimeout \<and>
   call Reset (epd_new 0 never_clears) = Inr (reset (epd_new 0 never_clears)) \<and>
   fst (wait_busy default_timeout (reset_pulse (epd_new 0 never_clears))) = False"
proof -
  have "\<forall>i. busy_line (reset_pulse (epd_new 0 never_clears)) i"
    by (simp add: reset_pulse_def epd_new_def never_clears_def)
  from wait_busy_never_clears(1) [OF this] show ?thesis
    by (simp add: never_clears_def)
qed

text \<open>
  C2, amended. With a busy line that never clears, \<open>reset\<close> ends 30.11 seconds after
  its call (the two settle sleeps of 50 ms, the timeout of 30 s and one poll period of
  10 ms), the wait inside it returns the flag \<open>False\<close>, and \<open>reset\<close> itself returns
  normally, without an error.
\<close>

theorem reset_never_clears:
  assumes "\<forall>i. busy_line s i"
  shows "reset s = snd (wait_busy default_timeout (reset_pulse s)) \<and>
         fst (wait_busy default_timeout (reset_pulse s)) = False \<and>
         clock (reset s) = clock s + 100 + default_timeout + 10 \<and>
         call Reset s = Inr (reset s)"
proof -
  have b: "\<forall>i. busy_line (reset_pulse s) i" using assms by (simp add: reset_pulse_def)
  have r: "reset s = snd (wait_busy default_timeout (reset_pulse s))"
    by (simp add: reset_def reset_pulse_def wait_busy_ignored_def)
  show ?thesis
    using wait_busy_never_clears [OF b] r by (simp add: reset_pulse_def)
qed

theorem reset_never_clears_witness:
  "busy_line (epd_new 0 never_clears) 0 \<and>
   busy_line (epd_new 0 never_clears) 3000 \<and>
   clock (reset (epd_new 0 never_clears)) = 30110 \<and>
   call Reset (epd_new 0 never_clears) = Inr (reset (epd_new 0 never_clears))"
proof -
  have b: "\<forall>i. busy_line (epd_new 0 never_clears) i"
    by (simp add: epd_new_def never_clears_def)
  have c: "clock (epd_new 0 never_clears) = 0" by (simp add: epd_new_def)
  from reset_never_clears [OF b] have
    "clock (reset (epd_new 0 never_clears)) = clock (epd_new 0 never_clears) + 100 + default_timeout + 10"
    by blast
  then have "clock (reset (epd_new 0 never_clears)) = 30110"
    by (simp add: c default_timeout_def)
  then show ?thesis using b by simp
qed

subsection \<open>C5: operations in a state where they are not valid\<close>

text \<open>
  C5, as stated, fails on the code. A partial render right after \<open>sleep\<close>, or on a
  driver that was never initialised, is not refused: it returns normally and has sent the
  whole command sequence of a partial update to the panel.
\<close>

theorem partial_after_sleep_proceeds:
  "call (DisplayPartial [0xFF]) (sleep (epd_new 0 always_clear)) =
     Inr (display_partial [0xFF] (sleep (epd_new 0 always_clear))) \<and>
   call (DisplayPartial [0xFF]) (sleep (epd_new 0 always_clear)) \<noteq> Inl InvalidDisplayState \<and>
   trace (display_partial [0xFF] (sleep (epd_new 0 always_clear))) =
     command_events 0x10 @ data_events 0x01 @ partial_update_events [0xFF] \<and>
   call (DisplayPartial [0xFF]) (epd_new 0 always_clear) \<noteq> Inl InvalidDisplayState \<and>
   trace (display_partial [0xFF] (epd_new 0 always_clear)) = partial_update_events [0xFF]"
  by (simp add: trace_display_partial trace_sleep) (simp add: sleep_def send_defs epd_new_def)

lemma spi_bytes_events [simp]:
  "spi_bytes (command_events cmd) = [cmd]"
  "spi_bytes (data_events val) = [val]"
  "spi_bytes (bulk_events data) = data"
  by (simp_all add: command_events_def data_events_def spi_bytes_bulk)

lemma spi_bytes_display_events:
  "spi_bytes (display_events buffer) = [0x24] @ buffer @ [0x26] @ buffer @ [0x22, 0xF7, 0x20]"
  by (simp add: display_events_def)




subsection \<open>C8: what a full refresh writes\<close>




lemma spi_bytes_init_events:
  "spi_bytes init_events =
     [0x12, 0x21, 0x40, 0x00, 0x3C, 0x05, 0x11, 0x03,
      0x44, 0x00, 0x31, 0x45, 0x00, 0x00, 0x2B, 0x01, 0x4E, 0x00, 0x4F, 0x00, 0x00]"
  by (simp add: init_events_def window_events_def cursor_events_def)

lemma spi_bytes_init_partial_events:
  "spi_bytes init_partial_events =
     [0x12, 0x21, 0x40, 0x00, 0x3C, 0x05, 0x11, 0x03,
      0x44, 0x00, 0x31, 0x45, 0x00, 0x00, 0x2B, 0x01, 0x4E, 0x00, 0x4F, 0x00, 0x00,
      0x3C, 0x80, 0x21, 0x00, 0x00]"
  by (simp add: init_partial_events_def spi_bytes_init_events)

lemma spi_bytes_partial_update_events:
  "spi_bytes (partial_update_events buffer) =
     [0x3C, 0x80, 0x21, 0x00, 0x00,
      0x44, 0x00, 0x31, 0x45, 0x00, 0x00, 0x2B, 0x01, 0x4E, 0x00, 0x4F, 0x00, 0x00, 0x24] @
     buffer @ [0x22, 0xFF, 0x20, 0x4E, 0x00, 0x4F, 0x00, 0x00, 0x26] @ buffer"
  by (simp add: partial_update_events_def window_events_def cursor_events_def)

lemma called_before_within:
  "full_refresh_interval s = 300000 \<Longrightarrow>
   called_before (last_full_refresh s + 300000) cs s \<Longrightarrow> within_interval cs s"
proof (induction cs arbitrary: s)
  case Nil
  then show ?case by simp
next
  case (Cons c cs)
  obtain idle buffer where c: "c = (idle, buffer)" by (cases c)
  let ?s = "time_sleep idle s"
  have el: "clock ?s - last_full_refresh ?s < full_refresh_interval ?s"
    using Cons.prems c by simp
  have step: "display_partial buffer ?s = partial_update buffer (?s\<lparr>partial_count := partial_count ?s + 1\<rparr>)"
    by (rule display_partial_normal [OF el])
  have i: "full_refresh_interval (display_partial buffer ?s) = 300000"
    and l: "last_full_refresh (display_partial buffer ?s) = last_full_refresh s"
    using Cons.prems(1) by (simp_all add: step)
  have "called_before (last_full_refresh (display_partial buffer ?s) + 300000) cs
          (display_partial buffer ?s)"
    using Cons.prems(2) c by (simp add: l)
  from Cons.IH [OF i this] el show ?case using c by simp
qed

lemma partial_calls_interval:
  "within_interval cs s \<Longrightarrow> full_refresh_interval (partial_calls cs s) = full_refresh_interval s"
proof (induction cs arbitrary: s)
  case Nil
  then show ?case by simp
next
  case (Cons c cs)
  obtain idle buffer where c: "c = (idle, buffer)" by (cases c)
  let ?s = "time_sleep idle s"
  have el: "clock ?s - last_full_refresh ?s < full_refresh_interval ?s"
    and rest: "within_interval cs (display_partial buffer ?s)"
    using Cons.prems c by simp_all
  have step: "display_partial buffer ?s = partial_update buffer (?s\<lparr>partial_count := partial_count ?s + 1\<rparr>)"
    by (rule display_partial_normal [OF el])
  show ?case using Cons.IH [OF rest] c by (simp add: step)
qed

subsection \<open>C1: the time-boxed full refresh\<close>

text \<open>
  C1. Let the driver have the refresh interval of 300 seconds that its constructor sets.
  After \<open>display B\<close>, take any sequence of \<open>display_partial\<close> calls (with any buffers
  and any idle times between them), each made less than 300 seconds, by the clock, after
  \<open>display\<close> returned. Then every call takes the partial branch: the events written
  are exactly those of the partial updates, one after the other, with the bytes of the
  source and no reset pulse among them; the counter of partial updates is the number of
  calls; and the time of the last full refresh is still the time at which \<open>display\<close>
  returned. And once 300 seconds or more have passed since then, the next
  \<open>display_partial\<close> does exactly what \<open>full_refresh\<close> does, which is \<open>init\<close>, then
  \<open>display\<close>, then \<open>init_partial\<close>: both end in the same state, having written the
  same events.
\<close>

theorem partial_refresh_policy:
  assumes "full_refresh_interval s0 = 300000"
    and "called_before (clock (display B s0) + 300000) cs (display B s0)"
  shows "trace (partial_calls cs (display B s0)) =
           trace (display B s0) @ concat (map (\<lambda>(idle, buffer). partial_update_events buffer) cs) \<and>
         (\<forall>buffer. spi_bytes (partial_update_events buffer) =
            [0x3C, 0x80, 0x21, 0x00, 0x00,
             0x44, 0x00, 0x31, 0x45, 0x00, 0x00, 0x2B, 0x01, 0x4E, 0x00, 0x4F, 0x00, 0x00, 0x24] @
            buffer @ [0x22, 0xFF, 0x20, 0x4E, 0x00, 0x4F, 0x00, 0x00, 0x26] @ buffer) \<and>
         (\<forall>buffer v. SetRST v \<notin> set (partial_update_events buffer)) \<and>
         partial_count (partial_calls cs (display B s0)) = length cs \<and>
         last_full_refresh (partial_calls cs (display B s0)) = clock (display B s0) \<and>
         (\<forall>idle buffer.
            clock (partial_calls cs (display B s0)) + idle \<ge> clock (display B s0) + 300000 \<longrightarrow>
              display_partial buffer (time_sleep idle (partial_calls cs (display B s0))) =
                full_refresh buffer (time_sleep idle (partial_calls cs (display B s0))) \<and>
              full_refresh buffer (time_sleep idle (partial_calls cs (display B s0))) =
                init_partial (display buffer (init (time_sleep idle (partial_calls cs (display B s0))))) \<and>
              trace (display_partial buffer (time_sleep idle (partial_calls cs (display B s0)))) =
                trace (partial_calls cs (display B s0)) @
                init_events @ display_events buffer @ init_partial_events) \<and>
         (\<forall>buffer. spi_bytes (init_events @ display_events buffer @ init_partial_events) =
            [0x12, 0x21, 0x40, 0x00, 0x3C, 0x05, 0x11, 0x03,
             0x44, 0x00, 0x31, 0x45, 0x00, 0x00, 0x2B, 0x01, 0x4E, 0x00, 0x4F, 0x00, 0x00] @
            [0x24] @ buffer @ [0x26] @ buffer @ [0x22, 0xF7, 0x20] @
            [0x12, 0x21, 0x40, 0x00, 0x3C, 0x05, 0x11, 0x03,
             0x44, 0x00, 0x31, 0x45, 0x00, 0x00, 0x2B, 0x01, 0x4E, 0x00, 0x4F, 0x00, 0x00,
             0x3C, 0x80, 0x21, 0x00, 0x00])"
proof -
  let ?d = "display B s0"
  let ?S = "partial_calls cs ?d"
  have i: "full_refresh_interval ?d = 300000" using assms(1) by (simp add: display_counters)
  have l: "last_full_refresh ?d = clock ?d" by (rule display_counters)
  have cb: "called_before (last_full_refresh ?d + 300000) cs ?d" using assms(2) by (simp add: l)
  have w: "within_interval cs ?d" by (rule called_before_within [OF i cb])
  note n = partial_calls_normal [OF w]
  have 1: "trace ?S = trace ?d @ concat (map (\<lambda>(idle, buffer). partial_update_events buffer) cs)"
    using n by blast
  have 2: "partial_count ?S = length cs" using n by (simp add: display_counters)
  have 3: "last_full_refresh ?S = clock ?d" using n l by simp
  have 4: "full_refresh_interval ?S = 300000" using partial_calls_interval [OF w] i by simp
  have 5: "\<forall>idle buffer.
            clock ?S + idle \<ge> clock ?d + 300000 \<longrightarrow>
              display_partial buffer (time_sleep idle ?S) = full_refresh buffer (time_sleep idle ?S) \<and>
              full_refresh buffer (time_sleep idle ?S) =
                init_partial (display buffer (init (time_sleep idle ?S))) \<and>
              trace (display_partial buffer (time_sleep idle ?S)) =
                trace ?S @ init_events @ display_events buffer @ init_partial_events"
  proof (intro allI impI)
    fix idle buffer
    assume late: "clock ?S + idle \<ge> clock ?d + 300000"
    have e: "clock (time_sleep idle ?S) - last_full_refresh (time_sleep idle ?S)
               \<ge> full_refresh_interval (time_sleep idle ?S)"
      using late 3 4 by simp
    have a: "display_partial buffer (time_sleep idle ?S) = full_refresh buffer (time_sleep idle ?S)"
      by (rule display_partial_redirect [OF e])
    have b: "full_refresh buffer (time_sleep idle ?S) =
               init_partial (display buffer (init (time_sleep idle ?S)))"
      by (simp add: full_refresh_def)
    have c: "trace (display_partial buffer (time_sleep idle ?S)) =
               trace ?S @ init_events @ display_events buffer @ init_partial_events"
      using e by (simp add: trace_display_partial)
    show "display_partial buffer (time_sleep idle ?S) = full_refresh buffer (time_sleep idle ?S) \<and>
          full_refresh buffer (time_sleep idle ?S) =
            init_partial (display buffer (init (time_sleep idle ?S))) \<and>
          trace (display_partial buffer (time_sleep idle ?S)) =
            trace ?S @ init_events @ display_events buffer @ init_partial_events"
      by (intro conjI) (rule a b c)+
  qed
  have 6: "\<forall>buffer. spi_bytes (partial_update_events buffer) =
            [0x3C, 0x80, 0x21, 0x00, 0x00,
             0x44, 0x00, 0x31, 0x45, 0x00, 0x00, 0x2B, 0x01, 0x4E, 0x00, 0x4F, 0x00, 0x00, 0x24] @
            buffer @ [0x22, 0xFF, 0x20, 0x4E, 0x00, 0x4F, 0x00, 0x00, 0x26] @ buffer"
    using spi_bytes_partial_update_events by blast
  have 7: "\<forall>buffer v. SetRST v \<notin> set (partial_update_events buffer)"
    using no_reset_in_partial_update by blast
  have 8: "\<forall>buffer. spi_bytes (init_events @ display_events buffer @ init_partial_events) =
            [0x12, 0x21, 0x40, 0x00, 0x3C, 0x05, 0x11, 0x03,
             0x44, 0x00, 0x31, 0x45, 0x00, 0x00, 0x2B, 0x01, 0x4E, 0x00, 0x4F, 0x00, 0x00] @
            [0x24] @ buffer @ [0x26] @ buffer @ [0x22, 0xF7, 0x20] @
            [0x12, 0x21, 0x40, 0x00, 0x3C, 0x05, 0x11, 0x03,
             0x44, 0x00, 0x31, 0x45, 0x00, 0x00, 0x2B, 0x01, 0x4E, 0x00, 0x4F, 0x00, 0x00,
             0x3C, 0x80, 0x21, 0x00, 0x00]"
    by (simp add: spi_bytes_init_events spi_bytes_init_partial_events spi_bytes_display_events)
  show ?thesis by (intro conjI) (rule 1 6 7 2 3 5 8)+
qed

lemma idle_display_partial:
  "busy_line s = always_clear \<Longrightarrow>
   clock s - last_full_refresh s < full_refresh_interval s \<Longrightarrow>
     clock (display_partial buffer s) = clock s \<and>
     busy_line (display_partial buffer s) = always_clear"
  by (simp add: display_partial_def idle_partial_update)

theorem partial_refresh_policy_witness:
  "full_refresh_interval late_start = 300000 \<and>
   last_full_refresh late_start = 0 \<and>
   clock (display white_buffer late_start) = 400000 \<and>
   called_before (clock (display white_buffer late_start) + 300000) two_partial_calls
     (display white_buffer late_start) \<and>
   partial_count (partial_calls two_partial_calls (display white_buffer late_start)) = 2 \<and>
   last_full_refresh (partial_calls two_partial_calls (display white_buffer late_start)) = 400000 \<and>
   clock (partial_calls two_partial_calls (display white_buffer late_start)) = 601000 \<and>
   display_partial white_buffer
       (time_sleep 99000 (partial_calls two_partial_calls (display white_buffer late_start))) =
     full_refresh white_buffer
       (time_sleep 99000 (partial_calls two_partial_calls (display white_buffer late_start)))"
proof -
  let ?d = "display white_buffer late_start"
  let ?S = "partial_calls two_partial_calls ?d"
  have i: "full_refresh_interval late_start = 300000"
    and l0: "last_full_refresh late_start = 0"
    by (simp_all add: late_start_def epd_new_def)
  have d: "clock ?d = 400000" "last_full_refresh ?d = 400000" "full_refresh_interval ?d = 300000"
    "busy_line ?d = always_clear"
    by (simp_all add: display_counters idle_display late_start_def epd_new_def)
  let ?p1 = "display_partial white_buffer (time_sleep 1000 ?d)"
  have p1: "clock ?p1 = 401000" "busy_line ?p1 = always_clear"
    using idle_display_partial [of "time_sleep 1000 ?d" white_buffer] by (simp_all add: d)
  have p1c: "last_full_refresh ?p1 = 400000" "full_refresh_interval ?p1 = 300000"
    by (simp_all add: display_partial_def d)
  let ?p2 = "display_partial white_buffer (time_sleep 200000 ?p1)"
  have p2: "clock ?p2 = 601000"
    using idle_display_partial [of "time_sleep 200000 ?p1" white_buffer] by (simp add: p1 p1c)
  have S: "?S = ?p2" by (simp add: two_partial_calls_def)
  have cb: "called_before (clock ?d + 300000) two_partial_calls ?d"
    by (simp add: two_partial_calls_def d p1)
  note t = partial_refresh_policy [OF i cb]
  have 1: "partial_count ?S = 2" using t by (simp add: two_partial_calls_def)
  have 2: "last_full_refresh ?S = 400000"
  proof -
    have "last_full_refresh ?S = clock ?d" using t by blast
    then show ?thesis by (simp only: d)
  qed
  have 3: "clock ?S = 601000" by (simp only: S p2)
  have late: "clock ?S + 99000 \<ge> clock ?d + 300000" by (simp add: 3 d)
  have 4: "display_partial white_buffer (time_sleep 99000 ?S) =
           full_refresh white_buffer (time_sleep 99000 ?S)"
    using t late by blast
  show ?thesis by (intro conjI) (rule i l0 d(1) cb 1 2 3 4)+
qed

subsection \<open>C5: operations in a state where they are not valid (amended)\<close>

lemma init_partial_counters:
  "last_full_refresh (init_partial s) = clock (init_partial s)"
  "full_refresh_interval (init_partial s) = full_refresh_interval s"
  "partial_count (init_partial s) = 0"
  by (simp_all add: init_partial_def init_def reset_def send_defs)

lemma sleep_counters:
  "last_full_refresh (sleep s) = last_full_refresh s"
  "full_refresh_interval (sleep s) = full_refresh_interval s"
  "clock (sleep s) = clock s"
  by (simp_all add: sleep_def send_defs)

lemma operation_events_nonempty: "operation_events operation s \<noteq> []"
  by (cases operation)
    (simp_all add: init_events_def init_partial_events_def display_events_def
      partial_update_events_def command_events_def)

text \<open>
  C5, amended. The driver keeps no display state and refuses nothing: every operation, in
  every state of the driver (also before any initialisation and after \<open>sleep\<close>),
  returns normally, and it has added its own command sequence, which is never empty,
  after what was sent to the panel before.
\<close>

theorem every_call_appends_its_events:
  "\<exists>s'. call operation s = Inr s' \<and>
         trace s' = trace s @ operation_events operation s \<and>
         operation_events operation s \<noteq> []"
proof -
  have "\<exists>s'. call operation s = Inr s' \<and> trace s' = trace s @ operation_events operation s"
    by (cases operation)
      (simp_all add: trace_reset trace_init trace_init_partial trace_display trace_display_partial
        trace_full_refresh trace_sleep clear_def)
  then show ?thesis using operation_events_nonempty by blast
qed

theorem every_call_appends_its_events_witness:
  "trace asleep = init_partial_events @ command_events 0x10 @ data_events 0x01 \<and>
   call (DisplayPartial [0xFF]) asleep = Inr (display_partial [0xFF] asleep) \<and>
   trace (display_partial [0xFF] asleep) = trace asleep @ partial_update_events [0xFF] \<and>
   spi_bytes (partial_update_events [0xFF]) =
     [0x3C, 0x80, 0x21, 0x00, 0x00,
      0x44, 0x00, 0x31, 0x45, 0x00, 0x00, 0x2B, 0x01, 0x4E, 0x00, 0x4F, 0x00, 0x00, 0x24,
      0xFF, 0x22, 0xFF, 0x20, 0x4E, 0x00, 0x4F, 0x00, 0x00, 0x26, 0xFF]"
proof -
  have tr: "trace asleep = init_partial_events @ command_events 0x10 @ data_events 0x01"
    by (simp add: asleep_def trace_sleep trace_init_partial epd_new_def)
  have el: "clock asleep - last_full_refresh asleep < full_refresh_interval asleep"
    by (simp add: asleep_def sleep_counters init_partial_counters epd_new_def)
  have ev: "operation_events (DisplayPartial [0xFF]) asleep = partial_update_events [0xFF]"
    using el by simp
  from every_call_appends_its_events [of "DisplayPartial [0xFF]" asleep]
  obtain s' where s': "call (DisplayPartial [0xFF]) asleep = Inr s'"
    "trace s' = trace asleep @ operation_events (DisplayPartial [0xFF]) asleep"
    by blast
  have c: "call (DisplayPartial [0xFF]) asleep = Inr (display_partial [0xFF] asleep)" by simp
  then have "s' = display_partial [0xFF] asleep" using s'(1) by simp
  then have t: "trace (display_partial [0xFF] asleep) = trace asleep @ partial_update_events [0xFF]"
    using s'(2) ev by simp
  have b: "spi_bytes (partial_update_events [0xFF]) =
     [0x3C, 0x80, 0x21, 0x00, 0x00,
      0x44, 0x00, 0x31, 0x45, 0x00, 0x00, 0x2B, 0x01, 0x4E, 0x00, 0x4F, 0x00, 0x00, 0x24,
      0xFF, 0x22, 0xFF, 0x20, 0x4E, 0x00, 0x4F, 0x00, 0x00, 0x26, 0xFF]"
    by (simp add: spi_bytes_partial_update_events)
  show ?thesis by (intro conjI) (rule tr c t b)+
qed

section \<open>Properties of the typewriter\<close>

subsection \<open>Supporting lemmas: the word wrap\<close>

lemma layout_okD: "layout_ok lines ctp line_idx \<Longrightarrow> ctp k = Some p \<Longrightarrow> entry_ok lines p"
  unfolding layout_ok_def by blast

lemma layout_okI:
  "line_idx = length lines \<Longrightarrow> (\<And>k p. ctp k = Some p \<Longrightarrow> entry_ok lines p) \<Longrightarrow>
     layout_ok lines ctp line_idx"
  unfolding layout_ok_def by blast

lemma entry_ok_append: "entry_ok lines p \<Longrightarrow> entry_ok (lines @ ws) p"
  by (auto simp: entry_ok_def nth_append)

lemma entry_ok_new_line: "c \<le> length w_line \<Longrightarrow> entry_ok (lines @ [w_line]) (length lines, c)"
  by (simp add: entry_ok_def)

lemma entry_ok_last: "lines \<noteq> [] \<Longrightarrow> entry_ok lines (length lines - 1, length (last lines))"
  by (simp add: entry_ok_def last_conv_nth)

lemma map_chars_entries:
  "map_chars pos line_idx col w_line ctp k = Some p \<Longrightarrow>
     ctp k = Some p \<or> (fst p = line_idx \<and> snd p < col + length w_line)"
proof (induction w_line arbitrary: pos col ctp)
  case Nil
  then show ?case by simp
next
  case (Cons ch w_line)
  from Cons.prems have "map_chars (Suc pos) line_idx (Suc col) w_line (ctp(pos \<mapsto> (line_idx, col))) k = Some p"
    by simp
  from Cons.IH [OF this]
  have "(ctp(pos \<mapsto> (line_idx, col))) k = Some p \<or> (fst p = line_idx \<and> snd p < Suc col + length w_line)" .
  then show ?case
  proof
    assume u: "(ctp(pos \<mapsto> (line_idx, col))) k = Some p"
    show ?thesis
    proof (cases "k = pos")
      case True
      then have "p = (line_idx, col)" using u by simp
      then show ?thesis by simp
    next
      case False
      then show ?thesis using u by simp
    qed
  next
    assume "fst p = line_idx \<and> snd p < Suc col + length w_line"
    then show ?thesis by simp
  qed
qed

lemma wrap_lines_ok:
  "layout_ok lines ctp line_idx \<Longrightarrow>
   wrap_lines para para_start wrapped (lines, ctp, line_idx, para_char) = (lines', ctp', line_idx', para_char') \<Longrightarrow>
     layout_ok lines' ctp' line_idx' \<and> lines' = lines @ wrapped"
proof (induction wrapped arbitrary: lines ctp line_idx para_char)
  case Nil
  then show ?case by simp
next
  case (Cons w_line wrapped)
  let ?ctp1 = "map_chars (para_start + para_char) line_idx 0 w_line ctp"
  let ?pc1 = "para_char + length w_line"
  let ?consumed = "?pc1 < length para \<and> para ! ?pc1 = CHR '' ''"
  let ?ctp2 = "if ?consumed then ?ctp1(para_start + ?pc1 \<mapsto> (line_idx, length w_line)) else ?ctp1"
  let ?pc2 = "if ?consumed then ?pc1 + 1 else ?pc1"
  have li: "line_idx = length lines" using Cons.prems(1) by (simp add: layout_ok_def)
  have old: "\<And>k p. ctp k = Some p \<Longrightarrow> entry_ok (lines @ [w_line]) p"
    using layout_okD [OF Cons.prems(1)] entry_ok_append by blast
  have new1: "\<And>k p. ?ctp1 k = Some p \<Longrightarrow> entry_ok (lines @ [w_line]) p"
  proof -
    fix k p assume "?ctp1 k = Some p"
    from map_chars_entries [OF this]
    show "entry_ok (lines @ [w_line]) p"
    proof
      assume "ctp k = Some p" then show ?thesis by (rule old)
    next
      assume "fst p = line_idx \<and> snd p < 0 + length w_line"
      then have "p = (length lines, snd p)" and "snd p \<le> length w_line"
        using li by (simp_all add: prod_eq_iff)
      then show ?thesis using entry_ok_new_line [of "snd p" w_line lines] by simp
    qed
  qed
  have new2: "\<And>k p. ?ctp2 k = Some p \<Longrightarrow> entry_ok (lines @ [w_line]) p"
  proof -
    fix k p assume e: "?ctp2 k = Some p"
    show "entry_ok (lines @ [w_line]) p"
    proof (cases "?consumed \<and> k = para_start + ?pc1")
      case True
      then have "p = (length lines, length w_line)" using e li by simp
      then show ?thesis using entry_ok_new_line [of "length w_line" w_line lines] by simp
    next
      case False
      then have "?ctp1 k = Some p" using e by (auto split: if_splits)
      then show ?thesis by (rule new1)
    qed
  qed
  have ok: "layout_ok (lines @ [w_line]) ?ctp2 (line_idx + 1)"
    by (rule layout_okI) (use li new2 in auto)
  have rec: "wrap_lines para para_start wrapped (lines @ [w_line], ?ctp2, line_idx + 1, ?pc2) =
               (lines', ctp', line_idx', para_char')"
    using Cons.prems(2) by (simp add: Let_def)
  from Cons.IH [OF ok rec] show ?case by auto
qed

lemma layout_ok_update:
  assumes "layout_ok lines ctp line_idx" and "entry_ok lines p"
  shows "layout_ok lines (ctp(k \<mapsto> p)) line_idx"
proof (rule layout_okI)
  show "line_idx = length lines" using assms(1) by (simp add: layout_ok_def)
next
  fix j q assume u: "(ctp(k \<mapsto> p)) j = Some q"
  show "entry_ok lines q"
  proof (cases "j = k")
    case True
    then show ?thesis using u assms(2) by simp
  next
    case False
    then have "ctp j = Some q" using u by simp
    then show ?thesis by (rule layout_okD [OF assms(1)])
  qed
qed

lemma layout_ok_append:
  assumes "layout_ok lines ctp line_idx"
  shows "layout_ok (lines @ ws) ctp (line_idx + length ws)"
proof (rule layout_okI)
  show "line_idx + length ws = length (lines @ ws)" using assms by (simp add: layout_ok_def)
next
  fix k p assume "ctp k = Some p"
  then show "entry_ok (lines @ ws) p" using layout_okD [OF assms] entry_ok_append by blast
qed

lemma wrap_paragraphs_ok:
  "layout_ok lines ctp line_idx \<Longrightarrow>
   wrap_paragraphs wrap cpl paragraphs (lines, ctp, line_idx, para_start) = (lines', ctp', line_idx', para_start') \<Longrightarrow>
     layout_ok lines' ctp' line_idx' \<and> (paragraphs \<noteq> [] \<or> lines \<noteq> [] \<longrightarrow> lines' \<noteq> [])"
proof (induction paragraphs arbitrary: lines ctp line_idx para_start)
  case Nil
  then show ?case by simp
next
  case (Cons para paragraphs)
  have li: "line_idx = length lines" using Cons.prems(1) by (simp add: layout_ok_def)
  show ?case
  proof (cases "para = []")
    case True
    let ?ctp1 = "if paragraphs \<noteq> [] then ctp(para_start \<mapsto> (line_idx, 0)) else ctp"
    have ok0: "layout_ok (lines @ [[]]) ctp (line_idx + 1)"
      using layout_ok_append [OF Cons.prems(1), of "[[]]"] by simp
    have "entry_ok (lines @ [[]]) (line_idx, 0)"
      using entry_ok_new_line [of 0 "[]" lines] li by simp
    then have ok: "layout_ok (lines @ [[]]) ?ctp1 (line_idx + 1)"
      using ok0 layout_ok_update by simp
    have rec: "wrap_paragraphs wrap cpl paragraphs (lines @ [[]], ?ctp1, line_idx + 1, para_start + 1) =
                 (lines', ctp', line_idx', para_start')"
      using Cons.prems(2) True by simp
    from Cons.IH [OF ok rec] show ?thesis by simp
  next
    case False
    let ?wrapped = "if wrap para cpl = [] then [[]] else wrap para cpl"
    have ne: "?wrapped \<noteq> []" by simp
    obtain lines1 ctp1 line_idx1 para_char where
      wl: "wrap_lines para para_start ?wrapped (lines, ctp, line_idx, 0) = (lines1, ctp1, line_idx1, para_char)"
      by (metis prod_cases4)
    note w = wrap_lines_ok [OF Cons.prems(1) wl]
    have ok1: "layout_ok lines1 ctp1 line_idx1" and l1: "lines1 = lines @ ?wrapped"
      using w by blast+
    have ne1: "lines1 \<noteq> []" using l1 ne by simp
    have li1: "line_idx1 = length lines1" using ok1 by (simp add: layout_ok_def)
    let ?ctp2 = "if paragraphs \<noteq> []
                 then ctp1(para_start + length para \<mapsto> (line_idx1 - 1, length (last lines1)))
                 else ctp1"
    have ok2: "layout_ok lines1 ?ctp2 line_idx1"
      using ok1 entry_ok_last [OF ne1] li1 layout_ok_update by simp
    have rec: "wrap_paragraphs wrap cpl paragraphs (lines1, ?ctp2, line_idx1, para_start + length para + 1) =
                 (lines', ctp', line_idx', para_start')"
      using Cons.prems(2) False wl by (simp add: Let_def)
    from Cons.IH [OF ok2 rec] ne1 show ?thesis by simp
  qed
qed

lemma split_newline_nonempty: "split_newline doc \<noteq> []"
  by (induction doc) (auto split: list.splits)

lemma wrap_with_cursor_ok:
  assumes "wrap_with_cursor wrap cpl doc cur = (lines, cursor_line, cursor_col)"
  shows "lines \<noteq> [] \<and> cursor_line < length lines \<and> cursor_col \<le> length (lines ! cursor_line)"
proof -
  obtain lines0 ctp line_idx para_start where
    wp: "wrap_paragraphs wrap cpl (split_newline doc) ([], Map.empty, 0, 0) = (lines0, ctp, line_idx, para_start)"
    by (metis prod_cases4)
  have ok0: "layout_ok [] Map.empty 0" by (simp add: layout_ok_def)
  from wrap_paragraphs_ok [OF ok0 wp] split_newline_nonempty
  have ok: "layout_ok lines0 ctp line_idx" and ne: "lines0 \<noteq> []" by blast+
  have eo: "\<And>k p. ctp k = Some p \<Longrightarrow> entry_ok lines0 p"
    using layout_okD [OF ok] by blast
  have l: "lines = lines0"
    using assms wp ne by (auto simp: wrap_with_cursor_def Let_def split: if_splits option.splits)
  have last: "length lines0 - 1 < length lines0" "length (last lines0) \<le> length (lines0 ! (length lines0 - 1))"
    using ne by (simp_all add: last_conv_nth)
  have "cursor_line < length lines0 \<and> cursor_col \<le> length (lines0 ! cursor_line)"
  proof (cases "cur \<ge> int (length doc) \<or> (if cur < 0 then None else ctp (nat cur)) = None")
    case True
    then have "cursor_line = length lines0 - 1 \<and> cursor_col = length (last lines0)"
      using assms wp ne by (auto simp: wrap_with_cursor_def Let_def split: if_splits option.splits)
    then show ?thesis using last by simp
  next
    case False
    then have "ctp (nat cur) = Some (cursor_line, cursor_col)"
      using assms wp ne by (auto simp: wrap_with_cursor_def Let_def split: if_splits option.splits)
    from eo [OF this] show ?thesis by (simp add: entry_ok_def)
  qed
  then show ?thesis using l ne by simp
qed

lemma wrap_empty_text: "wrap_with_cursor wrap_hard 3 [] 0 = ([[]], 0, 0)"
  by (simp add: wrap_with_cursor_def)

lemma wrap_newlines_only: "wrap_with_cursor wrap_hard 3 [CHR 0x0A, CHR 0x0A] 1 = ([[], [], []], 1, 0)"
  by (simp add: wrap_with_cursor_def)

lemma wrap_cursor_at_end: "wrap_with_cursor wrap_hard 3 ''abcdefgh'' 8 = ([''abc'', ''def'', ''gh''], 2, 2)"
  by (simp add: wrap_with_cursor_def wrap_hard.simps)

subsection \<open>C10: the cursor coordinates of the word wrap are in range\<close>

text \<open>
  C10. For every text, every cursor offset (in the text, at its end, or anywhere else),
  every width and whatever lines the library's wrapper returns, \<open>_wrap_with_cursor\<close>
  returns at least one line, a cursor line that is an index of the lines, and a cursor
  column that is at most the length of that line.
\<close>

theorem wrap_cursor_in_range:
  "case wrap_with_cursor wrap cpl doc cur of
     (lines, cursor_line, cursor_col) \<Rightarrow>
       lines \<noteq> [] \<and> cursor_line < length lines \<and> cursor_col \<le> length (lines ! cursor_line)"
proof -
  obtain lines cursor_line cursor_col where
    w: "wrap_with_cursor wrap cpl doc cur = (lines, cursor_line, cursor_col)"
    by (metis prod_cases3)
  from wrap_with_cursor_ok [OF w] show ?thesis by (simp add: w)
qed

theorem wrap_cursor_in_range_witness:
  "(case wrap_with_cursor wrap_hard 3 [] 0 of
      (lines, cursor_line, cursor_col) \<Rightarrow>
        lines \<noteq> [] \<and> cursor_line < length lines \<and> cursor_col \<le> length (lines ! cursor_line)) \<and>
   wrap_with_cursor wrap_hard 3 [] 0 = ([[]], 0, 0) \<and>
   (case wrap_with_cursor wrap_hard 3 [CHR 0x0A, CHR 0x0A] 1 of
      (lines, cursor_line, cursor_col) \<Rightarrow>
        lines \<noteq> [] \<and> cursor_line < length lines \<and> cursor_col \<le> length (lines ! cursor_line)) \<and>
   wrap_with_cursor wrap_hard 3 [CHR 0x0A, CHR 0x0A] 1 = ([[], [], []], 1, 0) \<and>
   (case wrap_with_cursor wrap_hard 3 ''abcdefgh'' 8 of
      (lines, cursor_line, cursor_col) \<Rightarrow>
        lines \<noteq> [] \<and> cursor_line < length lines \<and> cursor_col \<le> length (lines ! cursor_line)) \<and>
   wrap_with_cursor wrap_hard 3 ''abcdefgh'' 8 = ([''abc'', ''def'', ''gh''], 2, 2)"
  using wrap_cursor_in_range [of wrap_hard 3 "[]" 0]
    wrap_cursor_in_range [of wrap_hard 3 "[CHR 0x0A, CHR 0x0A]" 1]
    wrap_cursor_in_range [of wrap_hard 3 "''abcdefgh''" 8]
    wrap_empty_text wrap_newlines_only wrap_cursor_at_end
  by simp

subsection \<open>Supporting lemmas: keyboard input\<close>

lemma replicate_seven_blanks: "replicate 7 (CHR '' '') = ''       ''"
  by (simp add: numeral_eq_Suc)

lemma wrap_short_tab_document: "wrap_short (doc_text tab_document) 30 = [''a       b'']"
  by (simp add: wrap_short_def tab_document_def replicate_seven_blanks)

lemma wrap_short_tab_text: "wrap_short [CHR ''a'', CHR 0x09, CHR ''b''] 30 = [''a       b'']"
  using wrap_short_tab_document by (simp add: tab_document_def)

lemma wrap_tab_text: "wrap_with_cursor wrap_short 30 [CHR ''a'', CHR 0x09, CHR ''b''] 3 = ([''a       b''], 0, 9)"
  by (simp add: wrap_with_cursor_def wrap_short_tab_text)

lemma pos_tab_text: "pos_from_line_col wrap_short 30 [CHR ''a'', CHR 0x09, CHR ''b''] lines 0 c = min c 9"
  by (simp add: pos_from_line_col_def wrap_short_tab_text)

lemma pos_lines_bound:
  "line_fits para wrapped para_char \<Longrightarrow>
   pos_lines para text_pos target_line target_col wrapped (line_idx, para_char) = Inl pos \<Longrightarrow>
     pos \<le> text_pos + length para"
proof (induction wrapped arbitrary: line_idx para_char)
  case Nil
  then show ?case by simp
next
  case (Cons w_line wrapped)
  show ?case
  proof (cases "line_idx = target_line")
    case True
    then have "pos = text_pos + para_char + min target_col (length w_line)"
      using Cons.prems(2) by simp
    moreover have "para_char + length w_line \<le> length para" using Cons.prems(1) by simp
    ultimately show ?thesis by simp
  next
    case False
    let ?pc = "if para_char + length w_line < length para \<and> para ! (para_char + length w_line) = CHR '' ''
               then para_char + length w_line + 1 else para_char + length w_line"
    have f: "line_fits para wrapped ?pc" using Cons.prems(1) by simp
    have r: "pos_lines para text_pos target_line target_col wrapped (line_idx + 1, ?pc) = Inl pos"
      using Cons.prems(2) False by (simp add: Let_def)
    from Cons.IH [OF f r] show ?thesis .
  qed
qed

lemma pos_paragraphs_bound:
  "wrap_fits wrap cpl \<Longrightarrow>
   pos_paragraphs wrap cpl target_line target_col paragraphs (line_idx, text_pos) = Some pos \<Longrightarrow>
     pos \<le> text_pos + joined_length paragraphs"
proof (induction paragraphs arbitrary: line_idx text_pos)
  case Nil
  then show ?case by simp
next
  case (Cons para paragraphs)
  have jl: "paragraphs \<noteq> [] \<Longrightarrow>
              joined_length (para # paragraphs) = length para + 1 + joined_length paragraphs"
    by (cases paragraphs) (simp_all add: joined_length_def)
  have jl0: "length para \<le> joined_length (para # paragraphs)"
    by (simp add: joined_length_def)
  show ?case
  proof (cases "para = []")
    case True
    show ?thesis
    proof (cases "line_idx = target_line")
      case True
      then show ?thesis using Cons.prems(2) \<open>para = []\<close> by simp
    next
      case False
      then have r: "pos_paragraphs wrap cpl target_line target_col paragraphs (line_idx + 1, text_pos + 1) = Some pos"
        using Cons.prems(2) True by simp
      then have ne: "paragraphs \<noteq> []" by auto
      from Cons.IH [OF Cons.prems(1) r] jl [OF ne] show ?thesis by simp
    qed
  next
    case False
    let ?wrapped = "if wrap para cpl = [] then [[]] else wrap para cpl"
    have f: "line_fits para ?wrapped 0"
      using Cons.prems(1) by (simp add: wrap_fits_def)
    show ?thesis
    proof (cases "pos_lines para text_pos target_line target_col ?wrapped (line_idx, 0)")
      case (Inl p)
      then have "pos = p" using Cons.prems(2) False by (simp add: Let_def)
      then show ?thesis using pos_lines_bound [OF f Inl] jl0 by simp
    next
      case (Inr st)
      obtain line_idx1 para_char where st: "st = (line_idx1, para_char)" by (cases st)
      have r: "pos_paragraphs wrap cpl target_line target_col paragraphs
                 (line_idx1, text_pos + length para + 1) = Some pos"
        using Cons.prems(2) False Inr st by (simp add: Let_def)
      then have ne: "paragraphs \<noteq> []" by auto
      from Cons.IH [OF Cons.prems(1) r] jl [OF ne] show ?thesis by simp
    qed
  qed
qed

lemma joined_length_split_newline: "joined_length (split_newline doc) = length doc"
proof (induction doc)
  case Nil
  then show ?case by (simp add: joined_length_def)
next
  case (Cons c doc)
  obtain p ps where s: "split_newline doc = p # ps"
    using split_newline_nonempty [of doc] by (cases "split_newline doc") auto
  show ?case using Cons s by (simp add: joined_length_def)
qed

lemma pos_from_line_col_bound:
  "wrap_fits wrap cpl \<Longrightarrow> pos_from_line_col wrap cpl doc lines target_line target_col \<le> length doc"
  using pos_paragraphs_bound [of wrap cpl target_line target_col "split_newline doc" 0 0]
  by (auto simp: pos_from_line_col_def joined_length_split_newline split: option.splits)

lemma slice_length:
  "0 \<le> i \<Longrightarrow> i \<le> int (length s) \<Longrightarrow> length (slice_to s i) = nat i"
  "0 \<le> i \<Longrightarrow> i \<le> int (length s) \<Longrightarrow> length (slice_from s i) = length s - nat i"
  by (simp_all add: slice_to_def slice_from_def)

lemma slices_rejoin: "0 \<le> i \<Longrightarrow> slice_to s i @ slice_from s i = s"
  by (simp add: slice_to_def slice_from_def)

lemma plain_keys_keep_cursor_in_text:
  assumes "cursor_in_text e"
    and "keycode \<notin> {KEY_UP, KEY_DOWN, KEY_HOME, KEY_END}"
  shows "cursor_in_text (snd (handle_key wrap keycode val e))"
  using assms
  by (auto simp: handle_key_def cursor_in_text_def slice_length Let_def split: option.splits)

lemma line_keys_keep_cursor_in_text:
  assumes "wrap_fits wrap (chars_per_line e)"
  shows "cursor_in_text (snd (handle_key wrap keycode val e)) \<or> \<not> cursor_in_text e \<or>
         keycode \<notin> {KEY_UP, KEY_DOWN, KEY_HOME, KEY_END}"
  using pos_from_line_col_bound [OF assms]
  by (auto simp: handle_key_def cursor_in_text_def cursor_up_def cursor_down_def Let_def
      split: prod.splits)

lemma backspace_at_start: "cursor e = 0 \<Longrightarrow> snd (handle_key wrap KEY_BACKSPACE val e) = e"
  by (simp add: handle_key_def)

lemma delete_at_end:
  "cursor e = int (length (doc_text e)) \<Longrightarrow> snd (handle_key wrap KEY_DELETE val e) = e"
  by (simp add: handle_key_def)

lemma left_at_start: "cursor e = 0 \<Longrightarrow> snd (handle_key wrap KEY_LEFT val e) = e"
  by (simp add: handle_key_def)

lemma right_at_end:
  "cursor e = int (length (doc_text e)) \<Longrightarrow> snd (handle_key wrap KEY_RIGHT val e) = e"
  by (simp add: handle_key_def)

lemma character_insertion:
  assumes "keymap e (KEY_OTHER n) = Some (normal, shifted)" and "val \<noteq> 0"
  shows "handle_key wrap (KEY_OTHER n) val e =
           (None, e\<lparr>doc_text := slice_to (doc_text e) (cursor e) @
                                 (if shift_held e then shifted else normal) @
                                 slice_from (doc_text e) (cursor e),
                    cursor := cursor e + int (length (if shift_held e then shifted else normal)),
                    dirty := True, needs_display_update := True\<rparr>)"
  using assms by (simp add: handle_key_def)

subsection \<open>C9: the cursor stays in the text\<close>

text \<open>
  C9 fails on the code at the End key. The document is the three characters
  \<open>a\<close>, tab, \<open>b\<close>, as \<open>load_document\<close> reads them from a file, with the cursor at the
  end (3). The library's wrapper expands the tab, so the one wrapped line is nine
  characters long; \<open>_pos_from_line_col\<close> limits the column by the length of the wrapped
  line, not of the paragraph, and returns 9. After the key the text is unchanged and the
  cursor is 9, beyond the end of the text. (Up, Down and Home go through the same
  function; the other keys keep the cursor in the text, as the supporting lemmas show.)
\<close>

theorem end_key_leaves_text:
  "cursor_in_text tab_document \<and>
   wrap_short (doc_text tab_document) (chars_per_line tab_document) = [''a       b''] \<and>
   doc_text (snd (handle_key wrap_short KEY_END 1 tab_document)) = doc_text tab_document \<and>
   length (doc_text tab_document) = 3 \<and>
   cursor (snd (handle_key wrap_short KEY_END 1 tab_document)) = 9 \<and>
   \<not> cursor_in_text (snd (handle_key wrap_short KEY_END 1 tab_document))"
proof -
  have 1: "cursor_in_text tab_document" by (simp add: cursor_in_text_def tab_document_def)
  have 2: "wrap_short (doc_text tab_document) (chars_per_line tab_document) = [''a       b'']"
    using wrap_short_tab_document by (simp add: tab_document_def)
  have 3: "doc_text (snd (handle_key wrap_short KEY_END 1 tab_document)) = doc_text tab_document"
    by (simp add: handle_key_def split: prod.splits)
  have 4: "length (doc_text tab_document) = 3" by (simp add: tab_document_def)
  have 5: "cursor (snd (handle_key wrap_short KEY_END 1 tab_document)) = 9"
    by (simp add: handle_key_def tab_document_def wrap_tab_text pos_tab_text)
  have 6: "\<not> cursor_in_text (snd (handle_key wrap_short KEY_END 1 tab_document))"
    unfolding cursor_in_text_def 3 5 4 by simp
  show ?thesis by (intro conjI) (rule 1 2 3 4 5 6)+
qed

section \<open>Properties of the Bluetooth session and of the modes\<close>

subsection \<open>Supporting lemmas: the examples, evaluated\<close>

lemma ext_quiet [simp]: "\<not> raises env (length (calls w)) c \<Longrightarrow>
    ext env c w = (Next, effect env c (w\<lparr>calls := calls w @ [c]\<rparr>))"
  by (simp add: ext_def)

lemma start_healthy:
  "start_bt_pan healthy_env idle_world =
     (Started full_state,
      \<lparr>dbus_mainloop_set = True, bt_bus = True, bt_agent = True, powered = True,
       agent_registered = True, discoverable = True, pairable = True, bridge = True,
       nap_registered = True, dnsmasq_running = True, loop_running = True,
       calls = session_calls\<rparr>)"
  by (simp add: start_bt_pan_def start_network_def healthy_env_def idle_world_def quiet_def
      attempt_def session_calls_def)

lemma full_state_keys [simp]:
  "full_state ''dnsmasq'' = Some HDnsmasq"
  "full_state ''loop'' = Some HLoop"
  "full_state ''net_server'' = Some HNetServer"
  "full_state ''props'' = Some HProps"
  "full_state ''mgr'' = Some HMgr"
  by (simp_all add: full_state_def)

lemma start_stuck:
  "start_bt_pan stuck_bridge_env idle_world =
     (Started full_state,
      \<lparr>dbus_mainloop_set = True, bt_bus = True, bt_agent = True, powered = True,
       agent_registered = True, discoverable = True, pairable = True, bridge = True,
       nap_registered = True, dnsmasq_running = True, loop_running = True,
       calls = session_calls\<rparr>)"
  by (simp add: start_bt_pan_def start_network_def stuck_bridge_env_def healthy_env_def
      idle_world_def bridge_removal_fails_def attempt_def session_calls_def)

lemma started_world_eq:
  "started_world =
      \<lparr>dbus_mainloop_set = True, bt_bus = True, bt_agent = True, powered = True,
       agent_registered = True, discoverable = True, pairable = True, bridge = True,
       nap_registered = True, dnsmasq_running = True, loop_running = True,
       calls = session_calls\<rparr>"
  by (simp add: started_world_def start_stuck)

lemma running_world_eq:
  "running_world =
      \<lparr>dbus_mainloop_set = True, bt_bus = True, bt_agent = True, powered = True,
       agent_registered = True, discoverable = True, pairable = True, bridge = True,
       nap_registered = True, dnsmasq_running = True, loop_running = True,
       calls = session_calls\<rparr>"
  by (simp add: running_world_def start_healthy)

lemma stop_stuck:
  "stop_bt_pan stuck_bridge_env full_state started_world =
     (Raise (Failed IpLinkDel),
      \<lparr>dbus_mainloop_set = True, bt_bus = True, bt_agent = True, powered = True,
       agent_registered = False, discoverable = False, pairable = False, bridge = True,
       nap_registered = False, dnsmasq_running = False, loop_running = False,
       calls = session_calls @
         [DnsmasqTerminate, DnsmasqWait, LoopQuit, NapUnregister,
          SetDiscoverable False, SetPairable False, UnregisterAgent,
          BtDevicesConnected, IpLinkDel]\<rparr>)"
  by (simp add: started_world_eq stop_bt_pan_def stop_dhcp_def with_key_def
      bt_disconnect_all_def bt_power_off_def attempt_def ext_def
      stuck_bridge_env_def healthy_env_def bridge_removal_fails_def session_calls_def)

lemma stop_healthy:
  "stop_bt_pan healthy_env full_state running_world =
     (Next,
      \<lparr>dbus_mainloop_set = True, bt_bus = True, bt_agent = True, powered = False,
       agent_registered = False, discoverable = False, pairable = False, bridge = False,
       nap_registered = False, dnsmasq_running = False, loop_running = False,
       calls = session_calls @ teardown_calls\<rparr>)"
  by (simp add: running_world_eq stop_bt_pan_def stop_dhcp_def with_key_def
      bt_disconnect_all_def bt_power_off_def attempt_def ext_def
      healthy_env_def quiet_def session_calls_def teardown_calls_def)

lemma stopped_world_eq:
  "stopped_world =
      \<lparr>dbus_mainloop_set = True, bt_bus = True, bt_agent = True, powered = False,
       agent_registered = False, discoverable = False, pairable = False, bridge = False,
       nap_registered = False, dnsmasq_running = False, loop_running = False,
       calls = session_calls @ teardown_calls\<rparr>"
  by (simp add: stopped_world_def stop_healthy)

lemma stop_healthy_again:
  "stop_bt_pan healthy_env full_state stopped_world =
     (Next,
      \<lparr>dbus_mainloop_set = True, bt_bus = True, bt_agent = True, powered = False,
       agent_registered = False, discoverable = False, pairable = False, bridge = False,
       nap_registered = False, dnsmasq_running = False, loop_running = False,
       calls = session_calls @ teardown_calls @ teardown_calls\<rparr>)"
  by (simp add: stopped_world_eq stop_bt_pan_def stop_dhcp_def with_key_def
      bt_disconnect_all_def bt_power_off_def attempt_def ext_def
      healthy_env_def quiet_def session_calls_def teardown_calls_def)

lemma start_no_bridge:
  "start_bt_pan no_bridge_env idle_world =
     (Not_started,
      \<lparr>dbus_mainloop_set = True, bt_bus = True, bt_agent = True, powered = True,
       agent_registered = False, discoverable = True, pairable = True, bridge = False,
       nap_registered = False, dnsmasq_running = False, loop_running = False,
       calls =
         [MainloopSetup, SystemBus, GetAdapterProps, SetPowered, AgentCreate,
          GetAgentManager, UnregisterAgent, RegisterAgent, RequestDefaultAgent, SetAlias,
          SetDiscoverable True, SetDiscoverableTimeout, SetPairable True, SetPairableTimeout,
          IpLinkDel, IpLinkAdd, UnregisterAgent]\<rparr>)"
  by (simp add: start_bt_pan_def start_network_def no_bridge_env_def healthy_env_def
      idle_world_def quiet_def attempt_def)

subsection \<open>Supporting lemmas: the steps of the teardown, for every environment\<close>

lemma calls_effect [simp]: "calls (effect env c w) = calls w"
  by (cases c) simp_all

lemma powered_effect:
  "c \<noteq> SetPowered \<Longrightarrow> c \<noteq> BtPowerOff \<Longrightarrow> powered (effect env c w) = powered w"
  by (cases c) simp_all

lemma ext_result:
  "\<exists>fl w'. ext env c w = (fl, w') \<and> (fl = Next \<or> fl = Raise (Failed c)) \<and>
           fl = (if raises env (length (calls w)) c then Raise (Failed c) else Next) \<and>
           calls w' = calls w @ [c] \<and>
           (c \<noteq> SetPowered \<and> c \<noteq> BtPowerOff \<longrightarrow> powered w' = powered w)"
  by (simp add: ext_def powered_effect)

lemma attempt_ext:
  "\<exists>w'. attempt (ext env c) w = (Next, w') \<and> calls w' = calls w @ [c] \<and>
        (c \<noteq> SetPowered \<and> c \<noteq> BtPowerOff \<longrightarrow> powered w' = powered w)"
  by (simp add: attempt_def ext_def powered_effect)

lemma run_steps_append:
  "run_steps (fs @ gs) w =
     (case run_steps fs w of
        (Next, w1) \<Rightarrow> run_steps gs w1
      | (Return_None, w1) \<Rightarrow> (Return_None, w1)
      | (Raise e, w1) \<Rightarrow> (Raise e, w1))"
  by (induction fs arbitrary: w) (auto split: prod.splits flow.splits)

lemma stop_dhcp_step:
  "\<exists>w' l. stop_dhcp env full_state w = (Next, w') \<and>
          calls w' = calls w @ DnsmasqTerminate # l \<and>
          set l \<subseteq> {DnsmasqWait, DnsmasqKill} \<and> powered w' = powered w"
  by (simp add: stop_dhcp_def with_key_def attempt_def ext_def)

lemma loop_quit_step:
  "\<exists>w'. attempt (with_key full_state ''loop'' (ext env LoopQuit)) w = (Next, w') \<and>
        calls w' = calls w @ [LoopQuit] \<and> powered w' = powered w"
  by (simp add: with_key_def attempt_def ext_def)

lemma nap_unregister_step:
  "\<exists>w'. attempt (with_key full_state ''net_server'' (ext env NapUnregister)) w = (Next, w') \<and>
        calls w' = calls w @ [NapUnregister] \<and> powered w' = powered w"
  by (simp add: with_key_def attempt_def ext_def)

lemma adapter_config_step:
  "\<exists>w' l. attempt (run_steps [with_key full_state ''props'' (ext env (SetDiscoverable False)),
                              with_key full_state ''props'' (ext env (SetPairable False))]) w = (Next, w') \<and>
          calls w' = calls w @ SetDiscoverable False # l \<and>
          set l \<subseteq> {SetPairable False} \<and> powered w' = powered w"
  by (simp add: with_key_def attempt_def ext_def)

lemma agent_unregister_step:
  "\<exists>w'. attempt (with_key full_state ''mgr'' (ext env UnregisterAgent)) w = (Next, w') \<and>
        calls w' = calls w @ [UnregisterAgent] \<and> powered w' = powered w"
  by (simp add: with_key_def attempt_def ext_def)

lemma disconnect_each:
  "\<exists>fl w' l. run_steps (map (\<lambda>mac. ext env (BtDisconnect mac)) macs) w = (fl, w') \<and>
             fl \<noteq> Return_None \<and> calls w' = calls w @ l \<and>
             set l \<subseteq> range BtDisconnect \<and> powered w' = powered w"
proof (induction macs arbitrary: w)
  case Nil
  then show ?case by simp
next
  case (Cons mac macs)
  show ?case
  proof (cases "raises env (length (calls w)) (BtDisconnect mac)")
    case True
    then show ?thesis by (simp add: ext_def)
  next
    case False
    let ?w1 = "effect env (BtDisconnect mac) (w\<lparr>calls := calls w @ [BtDisconnect mac]\<rparr>)"
    from Cons.IH [of ?w1] obtain fl w' l where
      r: "run_steps (map (\<lambda>mac. ext env (BtDisconnect mac)) macs) ?w1 = (fl, w')"
         "fl \<noteq> Return_None" "calls w' = calls ?w1 @ l" "set l \<subseteq> range BtDisconnect"
         "powered w' = powered ?w1"
      by blast
    have "run_steps (map (\<lambda>mac. ext env (BtDisconnect mac)) (mac # macs)) w = (fl, w')"
      using False r(1) by (simp add: ext_def)
    moreover have "calls w' = calls w @ (BtDisconnect mac # l)" using r(3) by simp
    moreover have "set (BtDisconnect mac # l) \<subseteq> range BtDisconnect" using r(4) by simp
    moreover have "powered w' = powered w" using r(5) by simp
    ultimately show ?thesis using r(2) by blast
  qed
qed

lemma disconnect_all_step:
  "\<exists>w' l. bt_disconnect_all env w = (Next, w') \<and>
          calls w' = calls w @ BtDevicesConnected # l \<and>
          set l \<subseteq> range BtDisconnect \<and> powered w' = powered w"
proof (cases "raises env (length (calls w)) BtDevicesConnected")
  case True
  then show ?thesis by (simp add: bt_disconnect_all_def attempt_def ext_def)
next
  case False
  let ?w1 = "effect env BtDevicesConnected (w\<lparr>calls := calls w @ [BtDevicesConnected]\<rparr>)"
  from disconnect_each [of env "connected_devices env" ?w1] obtain fl w' l where
    r: "run_steps (map (\<lambda>mac. ext env (BtDisconnect mac)) (connected_devices env)) ?w1 = (fl, w')"
       "fl \<noteq> Return_None" "calls w' = calls ?w1 @ l" "set l \<subseteq> range BtDisconnect"
       "powered w' = powered ?w1"
    by blast
  have "bt_disconnect_all env w = (Next, w')"
    using False r(1,2) by (cases fl) (simp_all add: bt_disconnect_all_def attempt_def ext_def)
  moreover have "calls w' = calls w @ BtDevicesConnected # l" using r(3) by simp
  moreover have "powered w' = powered w" using r(5) by simp
  ultimately show ?thesis using r(4) by blast
qed

lemma power_off_step:
  "\<exists>w'. bt_power_off env w = (Next, w') \<and> calls w' = calls w @ [BtPowerOff]"
  by (simp add: bt_power_off_def attempt_def ext_def)

lemma stop_bt_pan_general:
  "\<exists>l1 l4 l6 w'.
     set l1 \<subseteq> {DnsmasqWait, DnsmasqKill} \<and> set l4 \<subseteq> {SetPairable False} \<and>
     set l6 \<subseteq> range BtDisconnect \<and>
     (if raises env (length (calls w @ DnsmasqTerminate # l1 @ [LoopQuit, NapUnregister] @
                               SetDiscoverable False # l4 @ [UnregisterAgent] @
                               BtDevicesConnected # l6)) IpLinkDel
      then stop_bt_pan env full_state w = (Raise (Failed IpLinkDel), w') \<and>
           calls w' = calls w @ DnsmasqTerminate # l1 @ [LoopQuit, NapUnregister] @
                      SetDiscoverable False # l4 @ [UnregisterAgent] @
                      BtDevicesConnected # l6 @ [IpLinkDel] \<and>
           powered w' = powered w
      else stop_bt_pan env full_state w = (Next, w') \<and>
           calls w' = calls w @ DnsmasqTerminate # l1 @ [LoopQuit, NapUnregister] @
                      SetDiscoverable False # l4 @ [UnregisterAgent] @
                      BtDevicesConnected # l6 @ [IpLinkDel, BtPowerOff])"
proof -
  obtain w1 l1 where 1: "stop_dhcp env full_state w = (Next, w1)"
    "calls w1 = calls w @ DnsmasqTerminate # l1" "set l1 \<subseteq> {DnsmasqWait, DnsmasqKill}"
    "powered w1 = powered w"
    using stop_dhcp_step by blast
  obtain w2 where 2: "attempt (with_key full_state ''loop'' (ext env LoopQuit)) w1 = (Next, w2)"
    "calls w2 = calls w1 @ [LoopQuit]" "powered w2 = powered w1"
    using loop_quit_step by blast
  obtain w3 where 3: "attempt (with_key full_state ''net_server'' (ext env NapUnregister)) w2 = (Next, w3)"
    "calls w3 = calls w2 @ [NapUnregister]" "powered w3 = powered w2"
    using nap_unregister_step by blast
  obtain w4 l4 where 4:
    "attempt (run_steps [with_key full_state ''props'' (ext env (SetDiscoverable False)),
                         with_key full_state ''props'' (ext env (SetPairable False))]) w3 = (Next, w4)"
    "calls w4 = calls w3 @ SetDiscoverable False # l4" "set l4 \<subseteq> {SetPairable False}"
    "powered w4 = powered w3"
    using adapter_config_step by blast
  obtain w5 where 5: "attempt (with_key full_state ''mgr'' (ext env UnregisterAgent)) w4 = (Next, w5)"
    "calls w5 = calls w4 @ [UnregisterAgent]" "powered w5 = powered w4"
    using agent_unregister_step by blast
  obtain w6 l6 where 6: "bt_disconnect_all env w5 = (Next, w6)"
    "calls w6 = calls w5 @ BtDevicesConnected # l6" "set l6 \<subseteq> range BtDisconnect"
    "powered w6 = powered w5"
    using disconnect_all_step by blast
  let ?before = "calls w @ DnsmasqTerminate # l1 @ [LoopQuit, NapUnregister] @
                 SetDiscoverable False # l4 @ [UnregisterAgent] @ BtDevicesConnected # l6"
  have c6: "calls w6 = ?before" using 1(2) 2(2) 3(2) 4(2) 5(2) 6(2) by simp
  have p6: "powered w6 = powered w" using 1(4) 2(3) 3(3) 4(4) 5(3) 6(4) by simp
  have rest: "stop_bt_pan env full_state w = run_steps [ext env IpLinkDel, bt_power_off env] w6"
    by (simp add: stop_bt_pan_def 1(1) 2(1) 3(1) 4(1) 5(1) 6(1))
  show ?thesis
  proof (cases "raises env (length ?before) IpLinkDel")
    case True
    let ?w' = "w6\<lparr>calls := calls w6 @ [IpLinkDel]\<rparr>"
    have "stop_bt_pan env full_state w = (Raise (Failed IpLinkDel), ?w')"
      using True c6 by (simp add: rest ext_def)
    moreover have "calls ?w' = ?before @ [IpLinkDel]" using c6 by simp
    moreover have "powered ?w' = powered w" using p6 by simp
    ultimately show ?thesis using True 1(3) 4(3) 6(3)
      by (intro exI [of _ l1] exI [of _ l4] exI [of _ l6] exI [of _ ?w']) simp
  next
    case False
    let ?w7 = "effect env IpLinkDel (w6\<lparr>calls := calls w6 @ [IpLinkDel]\<rparr>)"
    obtain w8 where 8: "bt_power_off env ?w7 = (Next, w8)" "calls w8 = calls ?w7 @ [BtPowerOff]"
      using power_off_step by blast
    have "stop_bt_pan env full_state w = (Next, w8)"
      using False c6 8(1) by (simp add: rest ext_def)
    moreover have "calls w8 = ?before @ [IpLinkDel, BtPowerOff]" using 8(2) c6 by simp
    ultimately show ?thesis using False 1(3) 4(3) 6(3)
      by (intro exI [of _ l1] exI [of _ l4] exI [of _ l6] exI [of _ w8]) simp
  qed
qed

lemma teardown_attempts_every_step:
  assumes "\<forall>n. \<not> raises env n IpLinkDel"
  shows "\<exists>l1 l4 l6.
           set l1 \<subseteq> {DnsmasqWait, DnsmasqKill} \<and> set l4 \<subseteq> {SetPairable False} \<and>
           set l6 \<subseteq> range BtDisconnect \<and>
           fst (stop_bt_pan env full_state w) = Next \<and>
           calls (snd (stop_bt_pan env full_state w)) =
             calls w @ DnsmasqTerminate # l1 @ [LoopQuit, NapUnregister] @
             SetDiscoverable False # l4 @ [UnregisterAgent] @
             BtDevicesConnected # l6 @ [IpLinkDel, BtPowerOff]"
proof -
  from stop_bt_pan_general [of env w] obtain l1 l4 l6 w' where
    g: "set l1 \<subseteq> {DnsmasqWait, DnsmasqKill}" "set l4 \<subseteq> {SetPairable False}"
       "set l6 \<subseteq> range BtDisconnect"
       "stop_bt_pan env full_state w = (Next, w') \<and>
        calls w' = calls w @ DnsmasqTerminate # l1 @ [LoopQuit, NapUnregister] @
                   SetDiscoverable False # l4 @ [UnregisterAgent] @
                   BtDevicesConnected # l6 @ [IpLinkDel, BtPowerOff]"
    using assms by (auto split: if_splits)
  show ?thesis
    by (intro exI [of _ l1] exI [of _ l4] exI [of _ l6]) (use g in simp)
qed

subsection \<open>C4: every release step of the teardown is attempted\<close>

text \<open>
  C4 fails on the code at step 7. A session is started and is then torn down; the
  subprocess call that removes the bridge raises (it is the one step of \<open>_stop_bt_pan\<close>
  outside a \<open>try\<close>). The teardown ends with that exception: step 8, the power-off of
  the adapter, is never attempted, and the adapter stays powered and the bridge stays up.
  (When the removal of the bridge does not raise, all eight steps are attempted whatever
  else fails: lemma \<open>teardown_attempts_every_step\<close>.)
\<close>

theorem teardown_stops_at_bridge_removal:
  "start_bt_pan stuck_bridge_env idle_world = (Started full_state, started_world) \<and>
   fst (stop_bt_pan stuck_bridge_env full_state started_world) = Raise (Failed IpLinkDel) \<and>
   calls (snd (stop_bt_pan stuck_bridge_env full_state started_world)) =
     session_calls @
     [DnsmasqTerminate, DnsmasqWait, LoopQuit, NapUnregister,
      SetDiscoverable False, SetPairable False, UnregisterAgent,
      BtDevicesConnected, IpLinkDel] \<and>
   BtPowerOff \<notin> set (calls (snd (stop_bt_pan stuck_bridge_env full_state started_world))) \<and>
   powered (snd (stop_bt_pan stuck_bridge_env full_state started_world)) \<and>
   bridge (snd (stop_bt_pan stuck_bridge_env full_state started_world))"
proof -
  have 1: "start_bt_pan stuck_bridge_env idle_world = (Started full_state, started_world)"
    by (simp add: start_stuck started_world_eq)
  show ?thesis unfolding stop_stuck 1 by (simp add: session_calls_def)
qed

subsection \<open>C6: a failed acquisition releases what it acquired\<close>

text \<open>
  C6 fails on the code when the bridge cannot be created. \<open>ip link add\<close> exits with a
  non-zero status and nothing raises: \<open>_start_bt_pan\<close> unregisters the agent and returns
  \<open>None\<close>. The adapter, which it powered on and made discoverable and pairable, is left
  so; \<open>_file_server_mode\<close> then returns to the typing screen with the adapter still
  powered, discoverable and pairable.
\<close>

theorem bridge_failure_leaves_adapter_open:
  "fst (start_bt_pan no_bridge_env idle_world) = Not_started \<and>
   calls (snd (start_bt_pan no_bridge_env idle_world)) =
     [MainloopSetup, SystemBus, GetAdapterProps, SetPowered, AgentCreate,
      GetAgentManager, UnregisterAgent, RegisterAgent, RequestDefaultAgent, SetAlias,
      SetDiscoverable True, SetDiscoverableTimeout, SetPairable True, SetPairableTimeout,
      IpLinkDel, IpLinkAdd, UnregisterAgent] \<and>
   powered (snd (start_bt_pan no_bridge_env idle_world)) \<and>
   discoverable (snd (start_bt_pan no_bridge_env idle_world)) \<and>
   pairable (snd (start_bt_pan no_bridge_env idle_world)) \<and>
   fst (file_server_mode no_bridge_env render instructions waited (fresh_app e)) = Next \<and>
   powered (bt (snd (file_server_mode no_bridge_env render instructions waited (fresh_app e)))) \<and>
   discoverable (bt (snd (file_server_mode no_bridge_env render instructions waited (fresh_app e)))) \<and>
   pairable (bt (snd (file_server_mode no_bridge_env render instructions waited (fresh_app e))))"
proof -
  have d: "has_dbus no_bridge_env" by (simp add: no_bridge_env_def healthy_env_def)
  have b: "bt (save_document (fresh_app e)\<lparr>epd := x\<rparr>) = idle_world" for x
    by (simp add: save_document_def fresh_app_def)
  show ?thesis
    by (simp add: start_no_bridge file_server_mode_def d Let_def
        resume_typewriter_display_def save_document_def fresh_app_def)
qed

subsection \<open>C7: the teardown, called twice\<close>

text \<open>
  C7, as stated, fails on the code: the teardown clears no field of the session, and a
  second call on the same session is no no-op. After a session that started and was torn
  down without any failure, the second teardown makes all ten release calls again.
\<close>

theorem second_teardown_repeats_every_step:
  "start_bt_pan healthy_env idle_world = (Started full_state, running_world) \<and>
   stop_bt_pan healthy_env full_state running_world = (Next, stopped_world) \<and>
   fst (stop_bt_pan healthy_env full_state stopped_world) = Next \<and>
   calls (snd (stop_bt_pan healthy_env full_state stopped_world)) =
     calls stopped_world @
     [DnsmasqTerminate, DnsmasqWait, LoopQuit, NapUnregister,
      SetDiscoverable False, SetPairable False, UnregisterAgent,
      BtDevicesConnected, IpLinkDel, BtPowerOff] \<and>
   stop_bt_pan healthy_env full_state stopped_world \<noteq> (Next, stopped_world)"
proof -
  have 1: "start_bt_pan healthy_env idle_world = (Started full_state, running_world)"
    by (simp add: start_healthy running_world_eq)
  have 2: "stop_bt_pan healthy_env full_state running_world = (Next, stopped_world)"
    by (simp add: stop_healthy stopped_world_eq)
  have 3: "fst (stop_bt_pan healthy_env full_state stopped_world) = Next"
    by (simp add: stop_healthy_again)
  have 4: "calls (snd (stop_bt_pan healthy_env full_state stopped_world)) =
     calls stopped_world @
     [DnsmasqTerminate, DnsmasqWait, LoopQuit, NapUnregister,
      SetDiscoverable False, SetPairable False, UnregisterAgent,
      BtDevicesConnected, IpLinkDel, BtPowerOff]"
    unfolding stop_healthy_again by (simp add: stopped_world_eq teardown_calls_def)
  have 5: "stop_bt_pan healthy_env full_state stopped_world \<noteq> (Next, stopped_world)"
    unfolding stop_healthy_again by (simp add: stopped_world_eq teardown_calls_def)
  show ?thesis by (intro conjI) (rule 1 2 3 4 5)+
qed

text \<open>
  C7, amended. The teardown does not change the session dictionary. Called twice on the
  session that \<open>_start_bt_pan\<close> returned, in any state of the system and whatever fails
  in either call except the removal of the bridge, both calls return normally, and the
  second call attempts every one of the eight steps again, in order.
\<close>

theorem teardown_twice:
  assumes "\<forall>n. \<not> raises env n IpLinkDel" and "\<forall>n. \<not> raises env' n IpLinkDel"
  shows "fst (stop_bt_pan env full_state w) = Next \<and>
         fst (stop_bt_pan env' full_state (snd (stop_bt_pan env full_state w))) = Next \<and>
         (\<exists>l1 l4 l6.
            set l1 \<subseteq> {DnsmasqWait, DnsmasqKill} \<and> set l4 \<subseteq> {SetPairable False} \<and>
            set l6 \<subseteq> range BtDisconnect \<and>
            calls (snd (stop_bt_pan env' full_state (snd (stop_bt_pan env full_state w)))) =
              calls (snd (stop_bt_pan env full_state w)) @
              DnsmasqTerminate # l1 @ [LoopQuit, NapUnregister] @
              SetDiscoverable False # l4 @ [UnregisterAgent] @
              BtDevicesConnected # l6 @ [IpLinkDel, BtPowerOff])"
proof -
  have 1: "fst (stop_bt_pan env full_state w) = Next"
    using teardown_attempts_every_step [OF assms(1), of w] by blast
  from teardown_attempts_every_step [OF assms(2), of "snd (stop_bt_pan env full_state w)"]
  show ?thesis using 1 by blast
qed

theorem teardown_twice_witness:
  "\<not> raises healthy_env 0 IpLinkDel \<and> \<not> raises healthy_env 33 IpLinkDel \<and>
   fst (stop_bt_pan healthy_env full_state running_world) = Next \<and>
   snd (stop_bt_pan healthy_env full_state running_world) = stopped_world \<and>
   fst (stop_bt_pan healthy_env full_state stopped_world) = Next \<and>
   calls (snd (stop_bt_pan healthy_env full_state stopped_world)) =
     calls stopped_world @ teardown_calls"
proof -
  have q: "\<forall>n. \<not> raises healthy_env n IpLinkDel" by (simp add: healthy_env_def quiet_def)
  note t = teardown_twice [OF q q, of running_world]
  have s: "snd (stop_bt_pan healthy_env full_state running_world) = stopped_world"
    by (simp add: stopped_world_def)
  have 1: "fst (stop_bt_pan healthy_env full_state running_world) = Next" using t by blast
  have 2: "fst (stop_bt_pan healthy_env full_state stopped_world) = Next"
    using t by (simp add: s)
  have 3: "calls (snd (stop_bt_pan healthy_env full_state stopped_world)) =
     calls stopped_world @ teardown_calls"
    unfolding stop_healthy_again by (simp add: stopped_world_eq)
  show ?thesis using q 1 s 2 3 by simp
qed

subsection \<open>Supporting lemmas: the display after a mode\<close>

lemma last_display_events: "last (xs @ display_events buffer) = SetDC True"
  by (simp add: display_events_def command_events_def)

lemma last_init_partial_events: "last (xs @ init_partial_events) = SetCS True"
  by (simp add: init_partial_events_def data_events_def)

lemma not_resynced_after_display:
  assumes "trace (epd a) = xs @ display_events buffer"
  shows "\<not> resynced render a"
proof
  assume "resynced render a"
  then have "suffix (init_events @ display_events (render (ed a)) @ init_partial_events) (trace (epd a))"
    by (simp add: resynced_def)
  then obtain zs where
    "trace (epd a) = zs @ init_events @ display_events (render (ed a)) @ init_partial_events"
    by (auto simp: suffix_def)
  then have "last (trace (epd a)) = SetCS True"
    using last_init_partial_events [of "zs @ init_events @ display_events (render (ed a))"]
    by simp
  moreover have "last (trace (epd a)) = SetDC True"
    using assms last_display_events [of xs buffer] by simp
  ultimately show False by simp
qed

lemma resume_resynced:
  assumes "renders_document render"
  shows "resynced render (resume_typewriter_display render a)"
proof -
  have r: "render ((ed a)\<lparr>needs_display_update := False\<rparr>) = render (ed a)"
    using assms by (simp add: renders_document_def)
  show ?thesis
    by (simp add: resynced_def resume_typewriter_display_def r trace_init trace_display
        trace_init_partial init_partial_counters suffix_def)
qed

lemma sleep_mode_resynced:
  assumes "renders_document render"
  shows "resynced render (sleep_mode render slept a)"
proof -
  have r: "render ((ed a)\<lparr>needs_display_update := False\<rparr>) = render (ed a)"
    using assms by (simp add: renders_document_def)
  show ?thesis
    by (simp add: resynced_def sleep_mode_def Let_def r trace_init trace_display
        trace_init_partial init_partial_counters suffix_def)
qed

lemma picker_loop_resynced:
  assumes "renders_document render"
    and "\<exists>p \<in> set keys. snd p = PickEnter \<or> snd p = PickCancel"
  shows "resynced render (picker_loop picker_img render layouts keys selected a)"
  using assms(2)
proof (induction keys arbitrary: selected a)
  case Nil
  then show ?case by simp
next
  case (Cons p keys)
  obtain idle k where p: "p = (idle, k)" by (cases p)
  show ?case
  proof (cases k)
    case PickEnter
    then show ?thesis using p resume_resynced [OF assms(1)] by (simp add: Let_def)
  next
    case PickCancel
    then show ?thesis using p resume_resynced [OF assms(1)] by (simp add: Let_def)
  next
    case PickUp
    then have "\<exists>p \<in> set keys. snd p = PickEnter \<or> snd p = PickCancel"
      using Cons.prems p by auto
    from Cons.IH [OF this] show ?thesis using p PickUp by (simp add: Let_def)
  next
    case PickDown
    then have "\<exists>p \<in> set keys. snd p = PickEnter \<or> snd p = PickCancel"
      using Cons.prems p by auto
    from Cons.IH [OF this] show ?thesis using p PickDown by (simp add: Let_def)
  next
    case PickOther
    then have "\<exists>p \<in> set keys. snd p = PickEnter \<or> snd p = PickCancel"
      using Cons.prems p by auto
    from Cons.IH [OF this] show ?thesis using p PickOther by (simp add: Let_def)
  qed
qed

lemma file_server_mode_resynced:
  assumes "renders_document render" and "has_dbus env"
    and "fst (file_server_mode env render instructions waited a) = Next"
    and "https_starts env \<or> fst (start_bt_pan env (bt a)) = Not_started"
  shows "resynced render (snd (file_server_mode env render instructions waited a))"
proof -
  have b: "bt (save_document a) = bt a" by (simp add: save_document_def)
  obtain r w where sb: "start_bt_pan env (bt a) = (r, w)" by (cases "start_bt_pan env (bt a)")
  show ?thesis
  proof (cases r)
    case (Started state)
    then have h: "https_starts env" using assms(4) sb by simp
    obtain fl w' where st: "stop_bt_pan env state w = (fl, w')" by (cases "stop_bt_pan env state w")
    show ?thesis
    proof (cases fl)
      case (Raise e)
      then show ?thesis using assms(2,3) sb Started st
        by (simp add: file_server_mode_def Let_def b)
    next
      case Next
      then show ?thesis using assms(2) sb Started st h resume_resynced [OF assms(1)]
        by (simp add: file_server_mode_def Let_def b)
    next
      case Return_None
      then show ?thesis using assms(2) sb Started st h resume_resynced [OF assms(1)]
        by (simp add: file_server_mode_def Let_def b)
    qed
  next
    case Not_started
    then show ?thesis using assms(2) sb resume_resynced [OF assms(1)]
      by (simp add: file_server_mode_def Let_def b)
  next
    case (Escaped e)
    then show ?thesis using assms(2,3) sb by (simp add: file_server_mode_def Let_def b)
  qed
qed

lemma start_no_https:
  "start_bt_pan no_https_env idle_world = (Started full_state, running_world)"
  unfolding running_world_eq
  by (simp add: start_bt_pan_def start_network_def no_https_env_def healthy_env_def
      idle_world_def quiet_def attempt_def session_calls_def)

lemma stop_no_https:
  "stop_bt_pan no_https_env full_state running_world = (Next, stopped_world)"
  unfolding running_world_eq stopped_world_eq
  by (simp add: stop_bt_pan_def stop_dhcp_def with_key_def
      bt_disconnect_all_def bt_power_off_def attempt_def ext_def
      no_https_env_def healthy_env_def quiet_def session_calls_def teardown_calls_def)

subsection \<open>C3: every exit from a mode resynchronises the display\<close>

text \<open>
  C3 fails on the code on one exit of the file-server mode. The Bluetooth session starts,
  but the HTTPS server does not (its port is taken, or no certificate could be made).
  \<open>_file_server_mode\<close> then returns from inside its \<open>try\<close> block: the \<open>finally\<close> block
  tears the session down, and the call of \<open>_resume_typewriter_display\<close> after it is
  skipped. The mode returns normally with the panel still showing the file-server
  screen, after a full refresh and without \<open>init_partial\<close>. (The other exits do
  resynchronise the display: lemmas \<open>file_server_mode_resynced\<close>, \<open>sleep_mode_resynced\<close>
  and \<open>picker_loop_resynced\<close>.)
\<close>

theorem https_failure_leaves_instruction_screen:
  "has_dbus no_https_env \<and> \<not> https_starts no_https_env \<and>
   start_bt_pan no_https_env idle_world = (Started full_state, running_world) \<and>
   stop_bt_pan no_https_env full_state running_world = (Next, stopped_world) \<and>
   fst (file_server_mode no_https_env render instructions waited (fresh_app e)) = Next \<and>
   bt (snd (file_server_mode no_https_env render instructions waited (fresh_app e))) = stopped_world \<and>
   epd (snd (file_server_mode no_https_env render instructions waited (fresh_app e))) =
     display instructions (init (epd_new 0 always_clear)) \<and>
   trace (epd (snd (file_server_mode no_https_env render instructions waited (fresh_app e)))) =
     init_events @ display_events instructions \<and>
   \<not> resynced render (snd (file_server_mode no_https_env render instructions waited (fresh_app e)))"
proof -
  have d: "has_dbus no_https_env" and h: "\<not> https_starts no_https_env"
    by (simp_all add: no_https_env_def healthy_env_def)
  have f: "file_server_mode no_https_env render instructions waited (fresh_app e) =
             (Next, \<lparr>epd = display instructions (init (epd_new 0 always_clear)),
                     bt = stopped_world, ed = e\<lparr>dirty := False\<rparr>\<rparr>)"
    by (simp add: file_server_mode_def d h Let_def save_document_def fresh_app_def
        start_no_https stop_no_https)
  have t: "trace (epd (snd (file_server_mode no_https_env render instructions waited (fresh_app e)))) =
             init_events @ display_events instructions"
    by (simp add: f trace_init trace_display epd_new_def)
  have n: "\<not> resynced render (snd (file_server_mode no_https_env render instructions waited (fresh_app e)))"
    using not_resynced_after_display [OF t] .
  show ?thesis using d h start_no_https stop_no_https t n by (simp add: f)
qed

end
